theory Spec2Isabelle
  imports Main "HOL-Library.AList"
begin

section \<open>Values and errors\<close>

text \<open>
  The payloads of the stream protocol are JSON values. Strings are lists of 8-bit
  characters and numbers are integers of magnitude at most \<open>2^53\<close> (the numbers that
  the runtime holds exactly and whose JSON text is a plain decimal integer literal); an
  object is the list of its own properties in the order in which the runtime
  enumerates them.
\<close>

datatype json =
    JNull
  | JBool bool
  | JNum int
  | JStr string
  | JArr "json list"
  | JObj "(string \<times> json) list"

text \<open>
  Every \<open>throw\<close> of the source is a value of this type. \<open>SyntaxError\<close> and
  \<open>TypeError\<close> are the exceptions of the JavaScript runtime (\<open>JSON.parse\<close> on
  malformed text, a property read on \<open>undefined\<close>, iteration over a value that is not
  iterable); \<open>Unmodelled\<close> marks JSON text outside the fragment above (a fraction, an
  exponent, an integer beyond \<open>2^53\<close>, a \<open>\u\<close> escape beyond one byte).
\<close>

datatype error =
    AlreadyClosed
  | ControllerNotInitialized
  | NoSeparator
  | InvalidCode string
  | InvalidPartType string
  | MalformedPayload string
  | SyntaxError
  | TypeError
  | CallbackThrew
  | Unmodelled

section \<open>The runtime's \<open>JSON.stringify\<close> and \<open>JSON.parse\<close>\<close>

text \<open>
  \<open>formatStreamPart\<close> and \<open>parseStreamPart\<close> call the runtime's JSON codec. It is
  written out here for the value fragment above: \<open>stringify\<close> produces the compact text
  of \<open>JSON.stringify\<close> (no white space, the short escapes, \<open>\u00XX\<close> for the other
  control characters), and \<open>JSON_parse\<close> is a recursive-descent reader of the JSON
  grammar that accepts white space between tokens, rejects raw control characters in
  strings and leading zeros, and defines the members of an object as properties one
  after the other.
\<close>

definition dquote :: char where "dquote = CHR 0x22"

definition backslash :: char where "backslash = CHR 0x5C"

definition hex_digit :: "nat \<Rightarrow> char" where
  "hex_digit k = (if k < 10 then char_of (48 + k) else char_of (87 + k))"

definition quote_char :: "char \<Rightarrow> string" where
  "quote_char c =
     (if c = dquote then [backslash, dquote]
      else if c = backslash then [backslash, backslash]
      else if c = CHR 0x08 then [backslash, CHR ''b'']
      else if c = CHR 0x0C then [backslash, CHR ''f'']
      else if c = CHR 0x0A then [backslash, CHR ''n'']
      else if c = CHR 0x0D then [backslash, CHR ''r'']
      else if c = CHR 0x09 then [backslash, CHR ''t'']
      else if (of_char c :: nat) < 32 then
        [backslash, CHR ''u'', CHR ''0'', CHR ''0'',
         hex_digit (of_char c div 16), hex_digit (of_char c mod 16)]
      else [c])"

definition quote :: "string \<Rightarrow> string" where
  "quote s = dquote # concat (map quote_char s) @ [dquote]"

fun digits :: "nat \<Rightarrow> string" where
  "digits n = (if n < 10 then [char_of (48 + n)] else digits (n div 10) @ [char_of (48 + n mod 10)])"

fun join_comma :: "string list \<Rightarrow> string" where
  "join_comma [] = []"
| "join_comma [x] = x"
| "join_comma (x # y # ys) = x @ CHR '','' # join_comma (y # ys)"

fun stringify :: "json \<Rightarrow> string" where
  "stringify JNull = ''null''"
| "stringify (JBool b) = (if b then ''true'' else ''false'')"
| "stringify (JNum i) = (if i < 0 then CHR ''-'' # digits (nat (- i)) else digits (nat i))"
| "stringify (JStr s) = quote s"
| "stringify (JArr xs) = CHR ''['' # join_comma (map stringify xs) @ '']''"
| "stringify (JObj kvs) =
     CHR ''{'' # join_comma (map (\<lambda>kv. quote (fst kv) @ CHR '':'' # stringify (snd kv)) kvs) @ ''}''"

definition is_ws :: "char \<Rightarrow> bool" where
  "is_ws c = (c = CHR '' '' \<or> c = CHR 0x09 \<or> c = CHR 0x0A \<or> c = CHR 0x0D)"

definition skip_ws :: "string \<Rightarrow> string" where
  "skip_ws s = dropWhile is_ws s"

definition is_digit :: "char \<Rightarrow> bool" where
  "is_digit c = (48 \<le> (of_char c :: nat) \<and> (of_char c :: nat) \<le> 57)"

definition hex_val :: "char \<Rightarrow> nat option" where
  "hex_val c =
     (let n = (of_char c :: nat) in
      if 48 \<le> n \<and> n \<le> 57 then Some (n - 48)
      else if 97 \<le> n \<and> n \<le> 102 then Some (n - 87)
      else if 65 \<le> n \<and> n \<le> 70 then Some (n - 55)
      else None)"

definition unescape :: "char \<Rightarrow> char option" where
  "unescape e =
     (if e = dquote then Some dquote
      else if e = backslash then Some backslash
      else if e = CHR ''/'' then Some CHR ''/''
      else if e = CHR ''b'' then Some (CHR 0x08)
      else if e = CHR ''f'' then Some (CHR 0x0C)
      else if e = CHR ''n'' then Some (CHR 0x0A)
      else if e = CHR ''r'' then Some (CHR 0x0D)
      else if e = CHR ''t'' then Some (CHR 0x09)
      else None)"

definition cons_result :: "char \<Rightarrow> error + string \<times> string \<Rightarrow> error + string \<times> string" where
  "cons_result c r = (case r of Inl e \<Rightarrow> Inl e | Inr (str, rest) \<Rightarrow> Inr (c # str, rest))"

fun parse_string_body :: "string \<Rightarrow> error + string \<times> string" where
  "parse_string_body [] = Inl SyntaxError"
| "parse_string_body (c # cs) =
     (if c = dquote then Inr ([], cs)
      else if c = backslash then
        (case cs of
           [] \<Rightarrow> Inl SyntaxError
         | e # cs' \<Rightarrow>
             if e = CHR ''u'' then
               (case cs' of
                  h1 # h2 # h3 # h4 # cs'' \<Rightarrow>
                    (case (hex_val h1, hex_val h2, hex_val h3, hex_val h4) of
                       (Some a, Some b, Some c, Some d) \<Rightarrow>
                         if a = 0 \<and> b = 0 then cons_result (char_of (16 * c + d)) (parse_string_body cs'')
                         else Inl Unmodelled
                     | _ \<Rightarrow> Inl SyntaxError)
                | _ \<Rightarrow> Inl SyntaxError)
             else
               (case unescape e of
                  None \<Rightarrow> Inl SyntaxError
                | Some d \<Rightarrow> cons_result d (parse_string_body cs')))
      else if (of_char c :: nat) < 32 then Inl SyntaxError
      else cons_result c (parse_string_body cs))"

definition digit_val :: "char \<Rightarrow> nat" where
  "digit_val c = of_char c - 48"

definition parse_nat :: "string \<Rightarrow> error + nat \<times> string" where
  "parse_nat s =
     (let ds = takeWhile is_digit s; rest = dropWhile is_digit s in
      if ds = [] then Inl SyntaxError
      else if hd ds = CHR ''0'' \<and> length ds > 1 then Inl SyntaxError
      else if rest \<noteq> [] \<and> (hd rest = CHR ''.'' \<or> hd rest = CHR ''e'' \<or> hd rest = CHR ''E'')
        then Inl Unmodelled
      else if 9007199254740992 < foldl (\<lambda>a c. 10 * a + digit_val c) 0 ds then Inl Unmodelled
      else Inr (foldl (\<lambda>a c. 10 * a + digit_val c) 0 ds, rest))"

definition parse_number :: "string \<Rightarrow> error + json \<times> string" where
  "parse_number s =
     (case s of
        [] \<Rightarrow> Inl SyntaxError
      | c # cs \<Rightarrow>
          if c = CHR ''-'' then
            (case parse_nat cs of Inl e \<Rightarrow> Inl e | Inr (n, rest) \<Rightarrow> Inr (JNum (- int n), rest))
          else
            (case parse_nat s of Inl e \<Rightarrow> Inl e | Inr (n, rest) \<Rightarrow> Inr (JNum (int n), rest)))"

text \<open>
  The properties of an object are enumerated with the array indices first, in ascending
  order, and the other keys after them in the order of their creation. An array index
  is a key that is the decimal text, without leading zeros, of a number below
  \<open>2^32 - 1\<close>. \<open>set_property\<close> defines a property as the reader of members does: an
  existing key keeps its place and takes the new value, a new key takes the place the
  enumeration order gives it.
\<close>

definition array_index :: "string \<Rightarrow> nat option" where
  "array_index k =
     (if k \<noteq> [] \<and> list_all is_digit k \<and> (length k = 1 \<or> hd k \<noteq> CHR ''0'')
         \<and> foldl (\<lambda>a c. 10 * a + digit_val c) 0 k < 4294967295
      then Some (foldl (\<lambda>a c. 10 * a + digit_val c) 0 k) else None)"

definition index_below :: "nat \<Rightarrow> string \<times> json \<Rightarrow> bool" where
  "index_below i kv = (case array_index (fst kv) of None \<Rightarrow> False | Some j \<Rightarrow> j < i)"

definition set_property :: "string \<Rightarrow> json \<Rightarrow> (string \<times> json) list \<Rightarrow> (string \<times> json) list" where
  "set_property k v kvs =
     (if k \<in> set (map fst kvs) then AList.update k v kvs
      else
        (case array_index k of
           None \<Rightarrow> kvs @ [(k, v)]
         | Some i \<Rightarrow> takeWhile (index_below i) kvs @ (k, v) # dropWhile (index_below i) kvs))"

definition parse_literal :: "string \<Rightarrow> json \<Rightarrow> string \<Rightarrow> error + json \<times> string" where
  "parse_literal w v s =
     (if take (length w) s = w then Inr (v, drop (length w) s) else Inl SyntaxError)"

text \<open>
  Arrays and objects nest, so the reader of values is recursive through the readers of
  elements and members. The first argument bounds the number of nested calls;
  \<open>JSON_parse\<close> starts with more than the length of the text, and a text that
  exhausted it would be reported as \<open>Unmodelled\<close>.
\<close>

fun parse_value :: "nat \<Rightarrow> string \<Rightarrow> error + json \<times> string"
  and parse_elements :: "nat \<Rightarrow> string \<Rightarrow> json list \<Rightarrow> error + json \<times> string"
  and parse_members :: "nat \<Rightarrow> string \<Rightarrow> (string \<times> json) list \<Rightarrow> error + json \<times> string"
where
  "parse_value 0 s = Inl Unmodelled"
| "parse_value (Suc n) s =
     (case s of
        [] \<Rightarrow> Inl SyntaxError
      | c # cs \<Rightarrow>
          if c = CHR ''n'' then parse_literal ''null'' JNull s
          else if c = CHR ''t'' then parse_literal ''true'' (JBool True) s
          else if c = CHR ''f'' then parse_literal ''false'' (JBool False) s
          else if c = dquote then
            (case parse_string_body cs of
               Inl e \<Rightarrow> Inl e
             | Inr (str, rest) \<Rightarrow> Inr (JStr str, rest))
          else if c = CHR ''['' then
            (case skip_ws cs of
               [] \<Rightarrow> Inl SyntaxError
             | d # rest \<Rightarrow>
                 if d = CHR '']'' then Inr (JArr [], rest)
                 else parse_elements n (d # rest) [])
          else if c = CHR ''{'' then
            (case skip_ws cs of
               [] \<Rightarrow> Inl SyntaxError
             | d # rest \<Rightarrow>
                 if d = CHR ''}'' then Inr (JObj [], rest)
                 else parse_members n (d # rest) [])
          else if c = CHR ''-'' \<or> is_digit c then parse_number s
          else Inl SyntaxError)"
| "parse_elements 0 s acc = Inl Unmodelled"
| "parse_elements (Suc n) s acc =
     (case parse_value n s of
        Inl e \<Rightarrow> Inl e
      | Inr (v, rest) \<Rightarrow>
          (case skip_ws rest of
             [] \<Rightarrow> Inl SyntaxError
           | c # cs \<Rightarrow>
               if c = CHR '','' then parse_elements n (skip_ws cs) (acc @ [v])
               else if c = CHR '']'' then Inr (JArr (acc @ [v]), cs)
               else Inl SyntaxError))"
| "parse_members 0 s acc = Inl Unmodelled"
| "parse_members (Suc n) s acc =
     (case s of
        [] \<Rightarrow> Inl SyntaxError
      | q # s1 \<Rightarrow>
          if q \<noteq> dquote then Inl SyntaxError
          else
            (case parse_string_body s1 of
               Inl e \<Rightarrow> Inl e
             | Inr (k, s2) \<Rightarrow>
                 (case skip_ws s2 of
                    [] \<Rightarrow> Inl SyntaxError
                  | c # s3 \<Rightarrow>
                      if c \<noteq> CHR '':'' then Inl SyntaxError
                      else
                        (case parse_value n (skip_ws s3) of
                           Inl e \<Rightarrow> Inl e
                         | Inr (v, s4) \<Rightarrow>
                             (case skip_ws s4 of
                                [] \<Rightarrow> Inl SyntaxError
                              | d # s5 \<Rightarrow>
                                  if d = CHR '','' then
                                    parse_members n (skip_ws s5) (set_property k v acc)
                                  else if d = CHR ''}'' then
                                    Inr (JObj (set_property k v acc), s5)
                                  else Inl SyntaxError)))))"

definition JSON_parse :: "string \<Rightarrow> error + json" where
  "JSON_parse s =
     (case parse_value (Suc (length s)) (skip_ws s) of
        Inl e \<Rightarrow> Inl e
      | Inr (v, rest) \<Rightarrow> if skip_ws rest = [] then Inr v else Inl SyntaxError)"

subsection \<open>Notions used to state the codec's round trip\<close>

text \<open>
  A value of the runtime holds numbers of magnitude at most \<open>2^53\<close>, and an object of
  the runtime has no two properties of the same name and lists them in enumeration
  order (\<open>key_before\<close> for every two keys, the earlier one first): \<open>wf_json\<close>. The remaining definitions describe the text around a value:
  what may follow a number, what may start a value, the budget of nested calls a value
  needs, and the text of one object member.
\<close>

definition key_before :: "string \<Rightarrow> string \<Rightarrow> bool" where
  "key_before k k' =
     (case array_index k of
        None \<Rightarrow> array_index k' = None
      | Some i \<Rightarrow> (case array_index k' of None \<Rightarrow> True | Some j \<Rightarrow> i < j))"

fun wf_json :: "json \<Rightarrow> bool" where
  "wf_json (JNum i) = (\<bar>i\<bar> \<le> 9007199254740992)"
| "wf_json (JArr xs) = list_all wf_json xs"
| "wf_json (JObj kvs) =
     (distinct (map fst kvs) \<and> sorted_wrt key_before (map fst kvs)
      \<and> list_all (\<lambda>kv. wf_json (snd kv)) kvs)"
| "wf_json _ = True"

definition num_delim :: "string \<Rightarrow> bool" where
  "num_delim rest =
     (case rest of [] \<Rightarrow> True
      | c # _ \<Rightarrow> \<not> is_digit c \<and> c \<noteq> CHR ''.'' \<and> c \<noteq> CHR ''e'' \<and> c \<noteq> CHR ''E'')"

definition starts_value :: "string \<Rightarrow> bool" where
  "starts_value s =
     (case s of [] \<Rightarrow> False
      | c # _ \<Rightarrow> \<not> is_ws c \<and> c \<noteq> CHR '']'' \<and> c \<noteq> CHR ''}'')"

fun fuel_of :: "json \<Rightarrow> nat" where
  "fuel_of (JArr xs) = Suc (length xs + sum_list (map fuel_of xs))"
| "fuel_of (JObj kvs) = Suc (length kvs + sum_list (map (\<lambda>kv. fuel_of (snd kv)) kvs))"
| "fuel_of _ = 1"

definition member_text :: "string \<times> json \<Rightarrow> string" where
  "member_text kv = quote (fst kv) @ CHR '':'' # stringify (snd kv)"

section \<open>Stream parts: \<open>shared/stream-parts.ts\<close>\<close>

text \<open>
  The validators test values with \<open>typeof\<close>, \<open>in\<close>, \<open>== null\<close>,
  \<open>Array.isArray\<close> and property reads. A JavaScript value that may be
  \<open>undefined\<close> is a \<open>json option\<close>. The keys the source reads (\<open>function_call\<close>,
  \<open>name\<close>, \<open>id\<close>, ...) are no properties of arrays or of the object prototype, so a
  property read or an \<open>in\<close> test finds them in objects only. In the source every
  \<open>in\<close> test and property read stands behind the \<open>typeof\<close> and null tests of the
  same disjunction, which short-circuit before a \<open>TypeError\<close> could arise.
\<close>

type_synonym js_value = "json option"

definition is_nullish :: "js_value \<Rightarrow> bool" where
  "is_nullish v = (v = None \<or> v = Some JNull)"

fun typeof :: "js_value \<Rightarrow> string" where
  "typeof None = ''undefined''"
| "typeof (Some JNull) = ''object''"
| "typeof (Some (JBool b)) = ''boolean''"
| "typeof (Some (JNum n)) = ''number''"
| "typeof (Some (JStr s)) = ''string''"
| "typeof (Some (JArr xs)) = ''object''"
| "typeof (Some (JObj kvs)) = ''object''"

fun get_prop :: "js_value \<Rightarrow> string \<Rightarrow> js_value" where
  "get_prop (Some (JObj kvs)) k = map_of kvs k"
| "get_prop v k = None"

fun has_prop :: "string \<Rightarrow> js_value \<Rightarrow> bool" where
  "has_prop k (Some (JObj kvs)) = (k \<in> fst ` set kvs)"
| "has_prop k v = False"

fun isArray :: "js_value \<Rightarrow> bool" where
  "isArray (Some (JArr xs)) = True"
| "isArray v = False"

fun elements :: "js_value \<Rightarrow> json list" where
  "elements (Some (JArr xs)) = xs"
| "elements v = []"

fun truthy :: "js_value \<Rightarrow> bool" where
  "truthy None = False"
| "truthy (Some JNull) = False"
| "truthy (Some (JBool b)) = b"
| "truthy (Some (JNum n)) = (n \<noteq> 0)"
| "truthy (Some (JStr s)) = (s \<noteq> [])"
| "truthy (Some (JArr xs)) = True"
| "truthy (Some (JObj kvs)) = True"

definition object_literal :: "(string \<times> js_value) list \<Rightarrow> json" where
  "object_literal kvs = JObj (concat (map (\<lambda>(k, v). case v of None \<Rightarrow> [] | Some x \<Rightarrow> [(k, x)]) kvs))"

text \<open>
  A decoded part \<open>{type, value}\<close>, and an entry of the part table
  \<open>{code, name, parse}\<close>.
\<close>

record stream_part =
  part_type :: string
  part_value :: json

record part_def =
  code :: string
  name :: string
  parse :: "json \<Rightarrow> error + stream_part"

definition textStreamPart :: part_def where
  "textStreamPart = \<lparr>code = ''0'', name = ''text'',
     parse = (\<lambda>v.
       if typeof (Some v) \<noteq> ''string'' then Inl (MalformedPayload ''text'')
       else Inr \<lparr>part_type = ''text'', part_value = v\<rparr>)\<rparr>"

definition functionCallStreamPart :: part_def where
  "functionCallStreamPart = \<lparr>code = ''1'', name = ''function_call'',
     parse = (\<lambda>v.
       let fc = get_prop (Some v) ''function_call'' in
       if is_nullish (Some v) \<or> typeof (Some v) \<noteq> ''object''
          \<or> \<not> has_prop ''function_call'' (Some v)
          \<or> typeof fc \<noteq> ''object'' \<or> is_nullish fc
          \<or> \<not> has_prop ''name'' fc \<or> \<not> has_prop ''arguments'' fc
          \<or> typeof (get_prop fc ''name'') \<noteq> ''string''
          \<or> typeof (get_prop fc ''arguments'') \<noteq> ''string''
       then Inl (MalformedPayload ''function_call'')
       else Inr \<lparr>part_type = ''function_call'', part_value = v\<rparr>)\<rparr>"

definition dataStreamPart :: part_def where
  "dataStreamPart = \<lparr>code = ''2'', name = ''data'',
     parse = (\<lambda>v.
       if \<not> isArray (Some v) then Inl (MalformedPayload ''data'')
       else Inr \<lparr>part_type = ''data'', part_value = v\<rparr>)\<rparr>"

definition errorStreamPart :: part_def where
  "errorStreamPart = \<lparr>code = ''3'', name = ''error'',
     parse = (\<lambda>v.
       if typeof (Some v) \<noteq> ''string'' then Inl (MalformedPayload ''error'')
       else Inr \<lparr>part_type = ''error'', part_value = v\<rparr>)\<rparr>"

definition content_item_ok :: "json \<Rightarrow> bool" where
  "content_item_ok item =
     (let i = Some item; t = get_prop i ''text'' in
      \<not> is_nullish i \<and> typeof i = ''object'' \<and> has_prop ''type'' i
      \<and> get_prop i ''type'' = Some (JStr ''text'') \<and> has_prop ''text'' i
      \<and> \<not> is_nullish t \<and> typeof t = ''object'' \<and> has_prop ''value'' t
      \<and> typeof (get_prop t ''value'') = ''string'')"

definition assistantMessageStreamPart :: part_def where
  "assistantMessageStreamPart = \<lparr>code = ''4'', name = ''assistant_message'',
     parse = (\<lambda>v.
       let x = Some v in
       if is_nullish x \<or> typeof x \<noteq> ''object'' \<or> \<not> has_prop ''id'' x
          \<or> \<not> has_prop ''role'' x \<or> \<not> has_prop ''content'' x
          \<or> typeof (get_prop x ''id'') \<noteq> ''string'' \<or> typeof (get_prop x ''role'') \<noteq> ''string''
          \<or> get_prop x ''role'' \<noteq> Some (JStr ''assistant'')
          \<or> \<not> isArray (get_prop x ''content'')
          \<or> \<not> list_all content_item_ok (elements (get_prop x ''content''))
       then Inl (MalformedPayload ''assistant_message'')
       else Inr \<lparr>part_type = ''assistant_message'', part_value = v\<rparr>)\<rparr>"

definition assistantControlDataStreamPart :: part_def where
  "assistantControlDataStreamPart = \<lparr>code = ''5'', name = ''assistant_control_data'',
     parse = (\<lambda>v.
       let x = Some v in
       if is_nullish x \<or> typeof x \<noteq> ''object'' \<or> \<not> has_prop ''threadId'' x
          \<or> \<not> has_prop ''messageId'' x
          \<or> typeof (get_prop x ''threadId'') \<noteq> ''string''
          \<or> typeof (get_prop x ''messageId'') \<noteq> ''string''
       then Inl (MalformedPayload ''assistant_control_data'')
       else Inr \<lparr>part_type = ''assistant_control_data'',
                part_value = object_literal [(''threadId'', get_prop x ''threadId''),
                                             (''messageId'', get_prop x ''messageId'')]\<rparr>)\<rparr>"

definition dataMessageStreamPart :: part_def where
  "dataMessageStreamPart = \<lparr>code = ''6'', name = ''data_message'',
     parse = (\<lambda>v.
       let x = Some v in
       if is_nullish x \<or> typeof x \<noteq> ''object'' \<or> \<not> has_prop ''role'' x
          \<or> \<not> has_prop ''data'' x \<or> typeof (get_prop x ''role'') \<noteq> ''string''
          \<or> get_prop x ''role'' \<noteq> Some (JStr ''data'')
       then Inl (MalformedPayload ''data_message'')
       else Inr \<lparr>part_type = ''data_message'', part_value = v\<rparr>)\<rparr>"

text \<open>
  The callback that \<open>toolCallStreamPart.parse\<close> passes to \<open>some\<close> is an arrow
  function with a block body: the body is one expression statement, the shape test
  \<open>tool_call_mismatch\<close>, whose value is discarded, and there is no \<open>return\<close>. The
  callback therefore returns \<open>undefined\<close> for every element.
\<close>

definition tool_call_mismatch :: "json \<Rightarrow> bool" where
  "tool_call_mismatch tc0 =
     (let tc = Some tc0; f = get_prop tc ''function'' in
      is_nullish tc \<or> typeof tc \<noteq> ''object'' \<or> \<not> has_prop ''id'' tc
      \<or> typeof (get_prop tc ''id'') \<noteq> ''string'' \<or> \<not> has_prop ''type'' tc
      \<or> typeof (get_prop tc ''type'') \<noteq> ''string'' \<or> \<not> has_prop ''function'' tc
      \<or> is_nullish f \<or> typeof f \<noteq> ''object'' \<or> \<not> has_prop ''arguments'' f
      \<or> typeof (get_prop f ''name'') \<noteq> ''string''
      \<or> typeof (get_prop f ''arguments'') \<noteq> ''string'')"

definition tool_call_callback :: "json \<Rightarrow> js_value" where
  "tool_call_callback tc = (let unused = tool_call_mismatch tc in None)"

definition toolCallStreamPart :: part_def where
  "toolCallStreamPart = \<lparr>code = ''7'', name = ''tool_calls'',
     parse = (\<lambda>v.
       let x = Some v; tcs = get_prop x ''tool_calls'' in
       if is_nullish x \<or> typeof x \<noteq> ''object'' \<or> \<not> has_prop ''tool_calls'' x
          \<or> typeof tcs \<noteq> ''object'' \<or> is_nullish tcs \<or> \<not> isArray tcs
          \<or> list_ex (\<lambda>tc. truthy (tool_call_callback tc)) (elements tcs)
       then Inl (MalformedPayload ''tool_calls'')
       else Inr \<lparr>part_type = ''tool_calls'', part_value = v\<rparr>)\<rparr>"

definition messageAnnotationsStreamPart :: part_def where
  "messageAnnotationsStreamPart = \<lparr>code = ''8'', name = ''message_annotations'',
     parse = (\<lambda>v.
       if \<not> isArray (Some v) then Inl (MalformedPayload ''message_annotations'')
       else Inr \<lparr>part_type = ''message_annotations'', part_value = v\<rparr>)\<rparr>"

definition streamParts :: "part_def list" where
  "streamParts =
     [textStreamPart, functionCallStreamPart, dataStreamPart, errorStreamPart,
      assistantMessageStreamPart, assistantControlDataStreamPart, dataMessageStreamPart,
      toolCallStreamPart, messageAnnotationsStreamPart]"

definition streamPartsByCode :: "string \<Rightarrow> part_def option" where
  "streamPartsByCode = map_of (map (\<lambda>p. (code p, p)) streamParts)"

definition validCodes :: "string list" where
  "validCodes = map code streamParts"

fun indexOf :: "string \<Rightarrow> char \<Rightarrow> nat option" where
  "indexOf [] c = None"
| "indexOf (x # xs) c = (if x = c then Some 0 else map_option Suc (indexOf xs c))"

definition parseStreamPart :: "string \<Rightarrow> error + stream_part" where
  "parseStreamPart line =
     (case indexOf line (CHR '':'') of
        None \<Rightarrow> Inl NoSeparator
      | Some firstSeparatorIndex \<Rightarrow>
          let prefix = take firstSeparatorIndex line in
          if prefix \<notin> set validCodes then Inl (InvalidCode prefix)
          else
            let textValue = drop (firstSeparatorIndex + 1) line in
            (case JSON_parse textValue of
               Inl e \<Rightarrow> Inl e
             | Inr jsonValue \<Rightarrow>
                 (case streamPartsByCode prefix of
                    None \<Rightarrow> Inl TypeError
                  | Some p \<Rightarrow> parse p jsonValue)))"

definition formatStreamPart :: "string \<Rightarrow> json \<Rightarrow> error + string" where
  "formatStreamPart type v =
     (case find (\<lambda>part. name part = type) streamParts of
        None \<Rightarrow> Inl (InvalidPartType type)
      | Some streamPart \<Rightarrow> Inr (code streamPart @ '':'' @ stringify v @ [CHR 0x0A]))"

subsection \<open>The payload shapes of the specification's table\<close>

text \<open>
  \<open>spec_shape\<close> is the required shape of each part kind as the specification's table
  words it, and \<open>spec_normalize\<close> the structurally-normalized payload: the payload
  itself, except for \<open>assistant_control_data\<close>, which keeps \<open>threadId\<close> and
  \<open>messageId\<close> only. Both are written independently of the validators above.
\<close>

definition obj_field :: "json \<Rightarrow> string \<Rightarrow> json option" where
  "obj_field v k = (case v of JObj kvs \<Rightarrow> map_of kvs k | _ \<Rightarrow> None)"

definition is_str :: "json option \<Rightarrow> bool" where
  "is_str v = (case v of Some (JStr s) \<Rightarrow> True | _ \<Rightarrow> False)"

definition is_arr :: "json option \<Rightarrow> bool" where
  "is_arr v = (case v of Some (JArr xs) \<Rightarrow> True | _ \<Rightarrow> False)"

definition arr_items :: "json option \<Rightarrow> json list" where
  "arr_items v = (case v of Some (JArr xs) \<Rightarrow> xs | _ \<Rightarrow> [])"

definition spec_content_item :: "json \<Rightarrow> bool" where
  "spec_content_item item =
     (obj_field item ''type'' = Some (JStr ''text'')
      \<and> (case obj_field item ''text'' of
             Some t \<Rightarrow> is_str (obj_field t ''value'')
           | None \<Rightarrow> False))"

definition spec_tool_call :: "json \<Rightarrow> bool" where
  "spec_tool_call tc =
     (is_str (obj_field tc ''id'') \<and> is_str (obj_field tc ''type'')
      \<and> (case obj_field tc ''function'' of
             Some f \<Rightarrow> is_str (obj_field f ''name'') \<and> is_str (obj_field f ''arguments'')
           | None \<Rightarrow> False))"

definition spec_shape :: "string \<Rightarrow> json \<Rightarrow> bool" where
  "spec_shape k v =
     (if k = ''text'' \<or> k = ''error'' then is_str (Some v)
      else if k = ''data'' \<or> k = ''message_annotations'' then is_arr (Some v)
      else if k = ''function_call'' then
        (case obj_field v ''function_call'' of
           Some fc \<Rightarrow> is_str (obj_field fc ''name'') \<and> is_str (obj_field fc ''arguments'')
         | None \<Rightarrow> False)
      else if k = ''assistant_message'' then
        is_str (obj_field v ''id'') \<and> obj_field v ''role'' = Some (JStr ''assistant'')
        \<and> is_arr (obj_field v ''content'')
        \<and> list_all spec_content_item (arr_items (obj_field v ''content''))
      else if k = ''assistant_control_data'' then
        is_str (obj_field v ''threadId'') \<and> is_str (obj_field v ''messageId'')
      else if k = ''data_message'' then
        obj_field v ''role'' = Some (JStr ''data'') \<and> obj_field v ''data'' \<noteq> None
      else if k = ''tool_calls'' then
        is_arr (obj_field v ''tool_calls'')
        \<and> list_all spec_tool_call (arr_items (obj_field v ''tool_calls''))
      else False)"

definition spec_normalize :: "string \<Rightarrow> json \<Rightarrow> json" where
  "spec_normalize k v =
     (if k = ''assistant_control_data'' then
        (case (obj_field v ''threadId'', obj_field v ''messageId'') of
           (Some t, Some m) \<Rightarrow> JObj [(''threadId'', t), (''messageId'', m)]
         | _ \<Rightarrow> v)
      else v)"

section \<open>The side-channel buffer: \<open>experimental_StreamData\<close>\<close>

text \<open>
  The fields of the class that its methods read and write. \<open>controller\<close> records
  whether the transform stream's \<open>start\<close> has stored the controller (it has once the
  constructor returns); \<open>isClosed\<close> is the one-shot close flag.
\<close>

record stream_data =
  controller :: bool
  isClosed :: bool
  data :: "json list"
  messageAnnotations :: "json list"

definition new_stream_data :: stream_data where
  "new_stream_data =
     \<lparr>controller = True, isClosed = False, data = [], messageAnnotations = []\<rparr>"

text \<open>
  A method returns the exception it threw, if any, and the object's state afterwards.
\<close>

definition close :: "stream_data \<Rightarrow> error option \<times> stream_data" where
  "close s =
     (if isClosed s then (Some AlreadyClosed, s)
      else if \<not> controller s then (Some ControllerNotInitialized, s)
      else (None, s\<lparr>isClosed := True\<rparr>))"

definition append_data :: "json \<Rightarrow> stream_data \<Rightarrow> error option \<times> stream_data" where
  "append_data v s =
     (if isClosed s then (Some AlreadyClosed, s)
      else (None, s\<lparr>data := data s @ [v]\<rparr>))"

definition appendMessageAnnotation :: "json \<Rightarrow> stream_data \<Rightarrow> error option \<times> stream_data" where
  "appendMessageAnnotation v s =
     (if isClosed s then (Some AlreadyClosed, s)
      else (None, s\<lparr>messageAnnotations := messageAnnotations s @ [v]\<rparr>))"

text \<open>
  The \<open>transform\<close> of the buffer's stream, run for every incoming chunk. It returns
  the chunks it enqueued, in order, and the buffer afterwards. \<open>formatStreamPart\<close>
  can throw in general, so the result is a sum; the two kinds named here are in the
  table.
\<close>

definition transform :: "stream_data \<Rightarrow> string \<Rightarrow> error + string list \<times> stream_data" where
  "transform self chunk =
     (case (if 0 < length (data self) then
              (case formatStreamPart ''data'' (JArr (data self)) of
                 Inl e \<Rightarrow> Inl e
               | Inr encodedData \<Rightarrow> Inr ([encodedData], self\<lparr>data := []\<rparr>))
            else Inr ([], self)) of
        Inl e \<Rightarrow> Inl e
      | Inr (out1, self1) \<Rightarrow>
          (case (if length (messageAnnotations self1) \<noteq> 0 then
                   (case formatStreamPart ''message_annotations'' (JArr (messageAnnotations self1)) of
                      Inl e \<Rightarrow> Inl e
                    | Inr encodedMessageAnnotations \<Rightarrow>
                        Inr ([encodedMessageAnnotations], self1\<lparr>messageAnnotations := []\<rparr>))
                 else Inr ([], self1)) of
             Inl e \<Rightarrow> Inl e
           | Inr (out2, self2) \<Rightarrow> Inr (out1 @ out2 @ [chunk], self2)))"

text \<open>
  The line that \<open>formatStreamPart\<close> builds for a data batch and for an annotation
  batch.
\<close>

definition data_line :: "json list \<Rightarrow> string" where
  "data_line xs = ''2:'' @ stringify (JArr xs) @ [CHR 0x0A]"

definition annotations_line :: "json list \<Rightarrow> string" where
  "annotations_line xs = ''8:'' @ stringify (JArr xs) @ [CHR 0x0A]"

definition two_appends :: stream_data where
  "two_appends =
     snd (append_data (JStr ''second'')
            (snd (append_data (JObj [(''a'', JNum 1)]) new_stream_data)))"

section \<open>Chunk reassembly: \<open>shared/read-data-stream.ts\<close>\<close>

text \<open>
  The reader is the list of byte chunks it will deliver; after the last one every
  \<open>read\<close> returns no value. Chunks are text already: the bytes of the protocol are
  ASCII, on which the \<open>TextDecoder\<close> is the identity. \<open>split_newline\<close> is
  \<open>split("\n")\<close>, \<open>map_parseStreamPart\<close> is \<open>map(parseStreamPart)\<close>, which throws at
  the first line that does not parse.
\<close>

definition NEWLINE :: char where
  "NEWLINE = CHR 0x0A"

fun split_newline :: "string \<Rightarrow> string list" where
  "split_newline [] = [[]]"
| "split_newline (c # cs) =
     (if c = NEWLINE then [] # split_newline cs
      else (case split_newline cs of [] \<Rightarrow> [[c]] | l # ls \<Rightarrow> (c # l) # ls))"

fun map_parseStreamPart :: "string list \<Rightarrow> error + stream_part list" where
  "map_parseStreamPart [] = Inr []"
| "map_parseStreamPart (l # ls) =
     (case parseStreamPart l of
        Inl e \<Rightarrow> Inl e
      | Inr p \<Rightarrow>
          (case map_parseStreamPart ls of Inl e \<Rightarrow> Inl e | Inr ps \<Rightarrow> Inr (p # ps)))"

definition concatChunks :: "string list \<Rightarrow> string" where
  "concatChunks chunks = concat chunks"

definition decode_lines :: "string \<Rightarrow> error + stream_part list" where
  "decode_lines text = map_parseStreamPart (filter (\<lambda>line. line \<noteq> []) (split_newline text))"

definition ends_with_newline :: "string \<Rightarrow> bool" where
  "ends_with_newline v = (v \<noteq> [] \<and> last v = NEWLINE)"

text \<open>
  The generator's loop. Each iteration reads once; the result lists, per read, the
  batch of parts yielded after it (empty when the chunk was only buffered), and the
  error that ended the iteration, if any. The iteration that breaks yields nothing and
  adds no batch. \<open>isAborted\<close> is the caller's predicate, asked after each yielded
  batch; its argument counts the batches before.
\<close>

fun readDataStream_loop ::
  "(nat \<Rightarrow> bool) \<Rightarrow> nat \<Rightarrow> string list \<Rightarrow> string list \<Rightarrow> stream_part list list \<times> error option"
where
  "readDataStream_loop isAborted n (v # reader) chunks =
     (if \<not> ends_with_newline v then
        (case readDataStream_loop isAborted n reader (chunks @ [v]) of
           (batches, r) \<Rightarrow> ([] # batches, r))
      else
        (case decode_lines (concatChunks (chunks @ [v])) of
           Inl e \<Rightarrow> ([], Some e)
         | Inr streamParts2 \<Rightarrow>
             if isAborted n then ([streamParts2], None)
             else
               (case readDataStream_loop isAborted (Suc n) reader [] of
                  (batches, r) \<Rightarrow> (streamParts2 # batches, r))))"
| "readDataStream_loop isAborted n [] chunks =
     (if chunks = [] then ([], None)
      else
        (case decode_lines (concatChunks chunks) of
           Inl e \<Rightarrow> ([], Some e)
         | Inr streamParts2 \<Rightarrow>
             if isAborted n then ([streamParts2], None)
             else
               (case readDataStream_loop isAborted (Suc n) [] [] of
                  (batches, r) \<Rightarrow> (streamParts2 # batches, r))))"

definition readDataStream ::
  "(nat \<Rightarrow> bool) \<Rightarrow> string list \<Rightarrow> stream_part list list \<times> error option" where
  "readDataStream isAborted reader = readDataStream_loop isAborted 0 reader []"

definition never :: "nat \<Rightarrow> bool" where
  "never n = False"

section \<open>The client: \<open>callCompletionApi\<close>\<close>

text \<open>
  What the function reads of the response, and what it does that a caller can see: the
  calls of \<open>setCompletion\<close>, \<open>onData\<close> and \<open>onFinish\<close>, and the returned
  completion (\<open>None\<close> where the function returns without a value).
\<close>

record response =
  res_ok :: bool
  res_text :: string
  res_body :: "string list option"
  res_complex_header :: "string option"

record completion_run =
  setCompletion_calls :: "string list"
  onData_calls :: "json list"
  onFinish_calls :: "(string \<times> string) list"
  returned :: "string option"

text \<open>
  \<open>createChunkDecoder(false)\<close> decodes a chunk to its text; \<open>string_of\<close> is the
  string that the runtime makes of a value where it needs one, as \<open>+=\<close> does with a
  part's value: a string is itself, an array is its elements' strings joined by commas
  with \<open>null\<close> left empty, an object is \<open>[object Object]\<close>.
\<close>

definition chunk_decoder :: "string \<Rightarrow> string" where
  "chunk_decoder chunk = chunk"

fun string_of :: "json \<Rightarrow> string" where
  "string_of JNull = ''null''"
| "string_of (JBool b) = (if b then ''true'' else ''false'')"
| "string_of (JNum i) = (if i < 0 then CHR ''-'' # digits (nat (- i)) else digits (nat i))"
| "string_of (JStr s) = s"
| "string_of (JArr xs) = join_comma (map (\<lambda>x. if x = JNull then [] else string_of x) xs)"
| "string_of (JObj kvs) = ''[object Object]''"

text \<open>
  The raw-text loop. \<open>aborted i\<close> tells whether \<open>abortController()\<close> returns
  \<open>null\<close> at the check after chunk \<open>i\<close>.
\<close>

fun read_raw ::
  "(nat \<Rightarrow> bool) \<Rightarrow> nat \<Rightarrow> string list \<Rightarrow> string \<Rightarrow> string \<Rightarrow> string list \<Rightarrow> string \<times> string list"
where
  "read_raw aborted i [] streamedResponse result calls = (result, calls)"
| "read_raw aborted i (v # reader) streamedResponse result calls =
     (let streamedResponse' = streamedResponse @ chunk_decoder v;
          result' = result @ streamedResponse';
          calls' = calls @ [result']
      in if aborted i then (result', calls')
         else read_raw aborted (Suc i) reader streamedResponse' result' calls')"

fun consume_parts :: "stream_part list \<Rightarrow> string \<Rightarrow> string list \<times> json list
    \<Rightarrow> string \<times> string list \<times> json list" where
  "consume_parts [] result (calls, datas) = (result, calls, datas)"
| "consume_parts (p # ps) result (calls, datas) =
     (if part_type p = ''text'' then
        (let result' = result @ string_of (part_value p)
         in consume_parts ps result' (calls @ [result'], datas))
      else if part_type p = ''data'' then
        consume_parts ps result (calls, datas @ [part_value p])
      else consume_parts ps result (calls, datas))"

datatype api_error = ResponseNotOk string | EmptyBody | StreamError error

text \<open>
  \<open>abortController\<close> is \<open>None\<close> for a \<open>null\<close> argument, else the function
  described above; \<open>abort_check\<close> is the test \<open>abortController?.() === null\<close>. The
  last argument tells whether \<open>onFinish\<close> was given. The request itself (\<open>fetch\<close>,
  \<open>onResponse\<close>) comes before and is left out.
\<close>

definition abort_check :: "(nat \<Rightarrow> bool) option \<Rightarrow> nat \<Rightarrow> bool" where
  "abort_check abortController i = (case abortController of None \<Rightarrow> False | Some f \<Rightarrow> f i)"

definition callCompletionApi ::
  "response \<Rightarrow> string \<Rightarrow> (nat \<Rightarrow> bool) option \<Rightarrow> bool \<Rightarrow> api_error + completion_run" where
  "callCompletionApi res prompt abortController onFinish =
     (if \<not> res_ok res then
        Inl (ResponseNotOk (if res_text res \<noteq> [] then res_text res
                            else ''Failed to fetch the chat response.''))
      else
        (case res_body res of
           None \<Rightarrow> Inl EmptyBody
         | Some reader \<Rightarrow>
             if res_complex_header res = Some ''true'' then
               (case readDataStream (\<lambda>n. abortController = None) reader of
                  (batches, r) \<Rightarrow>
                    (case consume_parts (concat batches) [] ([], []) of
                       (result, calls, datas) \<Rightarrow>
                         (case r of
                            Some e \<Rightarrow> Inl (StreamError e)
                          | None \<Rightarrow>
                              Inr \<lparr>setCompletion_calls = calls, onData_calls = datas,
                                   onFinish_calls = [], returned = None\<rparr>)))
             else
               (case read_raw (abort_check abortController) 0 reader [] [] [] of
                  (result, calls) \<Rightarrow>
                    Inr \<lparr>setCompletion_calls = calls, onData_calls = [],
                         onFinish_calls = (if onFinish then [(prompt, result)] else []),
                         returned = Some result\<rparr>)))"

definition running_prefixes :: "string list \<Rightarrow> string" where
  "running_prefixes cs = concat (map (\<lambda>k. concat (take k cs)) [1..<Suc (length cs)])"

text \<open>
  The chunks the raw-text loop reads and decodes: all of them, or those up to the one
  after which the request is found aborted.
\<close>

fun decoded_chunks :: "(nat \<Rightarrow> bool) \<Rightarrow> nat \<Rightarrow> string list \<Rightarrow> string list" where
  "decoded_chunks aborted i [] = []"
| "decoded_chunks aborted i (v # reader) =
     v # (if aborted i then [] else decoded_chunks aborted (Suc i) reader)"

section \<open>The reconstructor: \<open>shared/parse-complex-response.ts\<close>\<close>

text \<open>
  A message accumulator, the \<open>prefixMap\<close> of accumulators and data, and the state of
  one pass: the map, the annotation channel (\<open>None\<close> while \<open>undefined\<close>), the
  number of ids drawn from \<open>generateId\<close> so far, and the calls of the \<open>update\<close>
  sink made so far.
\<close>

record message =
  m_id :: string
  m_role :: string
  m_content :: string
  m_createdAt :: nat
  m_function_call :: js_value
  m_name :: js_value
  m_tool_calls :: js_value
  m_annotations :: "json list option"

record prefix_map =
  pm_text :: "message option"
  pm_function_call :: "message option"
  pm_tool_calls :: "message option"
  pm_data :: "json list"

record reconstruction =
  prefixMap :: prefix_map
  message_annotations :: "json list option"
  ids_generated :: nat
  update_calls :: "(message list \<times> json list) list"

definition assignAnnotationsToMessage :: "message option \<Rightarrow> json list option \<Rightarrow> message option" where
  "assignAnnotationsToMessage msg annotations =
     (case (msg, annotations) of
        (Some m, Some a) \<Rightarrow> if a = [] then msg else Some (m\<lparr>m_annotations := Some a\<rparr>)
      | _ \<Rightarrow> msg)"

text \<open>
  The loop body writes \<open>prefixMap[key].annotations = [...message_annotations]\<close> for
  every accumulator present when the channel is non-empty: \<open>stamp\<close>. The local
  variables \<open>functionCallMessage\<close>, \<open>toolCallMessage\<close> and \<open>responseMessage\<close> refer to
  those same objects (or to copies that already carry the snapshot), so the write shows
  in them too. \<open>present\<close> is \<open>filter(Boolean)\<close>; since
  \<open>assignAnnotationsToMessage\<close> returns \<open>null\<close> for \<open>null\<close>, filtering after it
  equals filtering before.
\<close>

definition stamp :: "json list option \<Rightarrow> message option \<Rightarrow> message option" where
  "stamp annotations slot =
     (case annotations of
        None \<Rightarrow> slot
      | Some a \<Rightarrow> if a = [] then slot else map_option (\<lambda>m. m\<lparr>m_annotations := Some a\<rparr>) slot)"

definition present :: "message option list \<Rightarrow> message list" where
  "present ms = concat (map (\<lambda>m. case m of None \<Rightarrow> [] | Some x \<Rightarrow> [x]) ms)"

text \<open>
  One iteration of the loop, for one decoded part. \<open>generateId\<close> is the id
  generator as a function of the number of ids drawn before; \<open>createdAt\<close> is the date
  taken once before the loop.
\<close>

definition process_part ::
  "(nat \<Rightarrow> string) \<Rightarrow> nat \<Rightarrow> reconstruction \<Rightarrow> stream_part \<Rightarrow> reconstruction" where
  "process_part generateId createdAt st part =
     (let type = part_type part; v = part_value part;
          pm0 = prefixMap st; n0 = ids_generated st;
          \<comment> \<open>text: append to the accumulator, or create it\<close>
          (pm1, n1) =
            (if type = ''text'' then
               (case pm_text pm0 of
                  Some t \<Rightarrow> (pm0\<lparr>pm_text := Some (t\<lparr>m_content := m_content t @ string_of v\<rparr>)\<rparr>, n0)
                | None \<Rightarrow>
                    (pm0\<lparr>pm_text := Some \<lparr>m_id = generateId n0, m_role = ''assistant'',
                        m_content = string_of v, m_createdAt = createdAt,
                        m_function_call = None, m_name = None, m_tool_calls = None,
                        m_annotations = None\<rparr>\<rparr>, Suc n0))
             else (pm0, n0));
          \<comment> \<open>function_call: create or replace\<close>
          (pm2, n2, functionCallMessage) =
            (if type = ''function_call'' then
               (let m = \<lparr>m_id = generateId n1, m_role = ''assistant'', m_content = [],
                          m_createdAt = createdAt,
                          m_function_call = get_prop (Some v) ''function_call'',
                          m_name = get_prop (get_prop (Some v) ''function_call'') ''name'',
                          m_tool_calls = None, m_annotations = None\<rparr>
                in (pm1\<lparr>pm_function_call := Some m\<rparr>, Suc n1, Some m))
             else (pm1, n1, None));
          \<comment> \<open>tool_calls: create or replace\<close>
          (pm3, n3, toolCallMessage) =
            (if type = ''tool_calls'' then
               (let m = \<lparr>m_id = generateId n2, m_role = ''assistant'', m_content = [],
                          m_createdAt = createdAt, m_function_call = None, m_name = None,
                          m_tool_calls = get_prop (Some v) ''tool_calls'',
                          m_annotations = None\<rparr>
                in (pm2\<lparr>pm_tool_calls := Some m\<rparr>, Suc n2, Some m))
             else (pm2, n2, None));
          pm4 = (if type = ''data'' then pm3\<lparr>pm_data := pm_data pm3 @ elements (Some v)\<rparr> else pm3);
          responseMessage = pm_text pm4;
          \<comment> \<open>message_annotations: extend the channel, re-read all three accumulators\<close>
          (ma, functionCallMessage', toolCallMessage', responseMessage') =
            (if type = ''message_annotations'' then
               (let ma = (case message_annotations st of
                            None \<Rightarrow> Some (elements (Some v))
                          | Some old \<Rightarrow> Some (old @ elements (Some v)))
                in (ma, assignAnnotationsToMessage (pm_function_call pm4) ma,
                        assignAnnotationsToMessage (pm_tool_calls pm4) ma,
                        assignAnnotationsToMessage (pm_text pm4) ma))
             else (message_annotations st, functionCallMessage, toolCallMessage, responseMessage));
          \<comment> \<open>stamp the snapshot on every accumulator present\<close>
          pm5 = pm4\<lparr>pm_text := stamp ma (pm_text pm4),
                    pm_function_call := stamp ma (pm_function_call pm4),
                    pm_tool_calls := stamp ma (pm_tool_calls pm4)\<rparr>;
          merged = present (map (\<lambda>m. assignAnnotationsToMessage (stamp ma m) ma)
                              [functionCallMessage', toolCallMessage', responseMessage'])
      in st\<lparr>prefixMap := pm5, message_annotations := ma, ids_generated := n3,
            update_calls := update_calls st @ [(merged, pm_data pm5)]\<rparr>)"

definition initial_reconstruction :: reconstruction where
  "initial_reconstruction =
     \<lparr>prefixMap = \<lparr>pm_text = None, pm_function_call = None, pm_tool_calls = None, pm_data = []\<rparr>,
      message_annotations = None, ids_generated = 0, update_calls = []\<rparr>"

definition process_parts ::
  "(nat \<Rightarrow> string) \<Rightarrow> nat \<Rightarrow> reconstruction \<Rightarrow> stream_part list \<Rightarrow> reconstruction" where
  "process_parts generateId createdAt st parts = foldl (process_part generateId createdAt) st parts"

record reconstruction_result =
  sink :: "(message list \<times> json list) list"
  outcome :: "error + message list \<times> json list"

definition parseComplexResponse ::
  "(nat \<Rightarrow> string) \<Rightarrow> nat \<Rightarrow> (nat \<Rightarrow> bool) \<Rightarrow> string list \<Rightarrow> reconstruction_result" where
  "parseComplexResponse generateId createdAt isAborted reader =
     (case readDataStream isAborted reader of
        (batches, r) \<Rightarrow>
          (let st = process_parts generateId createdAt initial_reconstruction (concat batches);
               pm = prefixMap st
           in \<lparr>sink = update_calls st,
               outcome =
                 (case r of
                    Some e \<Rightarrow> Inl e
                  | None \<Rightarrow>
                      Inr (present [pm_text pm, pm_function_call pm, pm_tool_calls pm],
                           pm_data pm))\<rparr>))"

definition counter_id :: "nat \<Rightarrow> string" where
  "counter_id n = ''id'' @ digits n"

text \<open>
  Notions used to state what the sink receives: the accumulators a part of a given
  type emits, the three accumulator slots, an accumulator unchanged in identity with its
  content extended, and a map whose accumulators all carry one creation date.
\<close>

definition emitted :: "string \<Rightarrow> prefix_map \<Rightarrow> message list" where
  "emitted type pm =
     present
       [if type = ''function_call'' \<or> type = ''message_annotations'' then pm_function_call pm else None,
        if type = ''tool_calls'' \<or> type = ''message_annotations'' then pm_tool_calls pm else None,
        pm_text pm]"

definition slots :: "prefix_map \<Rightarrow> message option list" where
  "slots pm = [pm_function_call pm, pm_tool_calls pm, pm_text pm]"

definition same_identity :: "message \<Rightarrow> message \<Rightarrow> bool" where
  "same_identity t t' =
     (m_id t' = m_id t \<and> m_createdAt t' = m_createdAt t
      \<and> take (length (m_content t)) (m_content t') = m_content t)"

definition created_at :: "nat \<Rightarrow> prefix_map \<Rightarrow> bool" where
  "created_at c pm = list_all (\<lambda>slot. case slot of None \<Rightarrow> True | Some m \<Rightarrow> m_createdAt m = c) (slots pm)"

text \<open>
  Example inputs: a function call, a text part after it, and a second function call.
\<close>

definition call_f :: stream_part where
  "call_f = \<lparr>part_type = ''function_call'',
     part_value = JObj [(''function_call'', JObj [(''name'', JStr ''f''), (''arguments'', JStr ''{}'')])]\<rparr>"

definition call_g :: stream_part where
  "call_g = \<lparr>part_type = ''function_call'',
     part_value = JObj [(''function_call'', JObj [(''name'', JStr ''g''), (''arguments'', JStr ''{}'')])]\<rparr>"

definition text_hi :: stream_part where
  "text_hi = \<lparr>part_type = ''text'', part_value = JStr ''hi''\<rparr>"

section \<open>The function/tool-call interceptor: \<open>streams/openai-stream.ts\<close>\<close>

text \<open>
  What a user callback does when the interceptor invokes it: it returns nothing,
  a string, or a new response (here the text units that response yields once the
  provider's chunks are translated), or it throws. A callback is a function of the
  call it is given and of the number of round trips made before, which stands for the
  message history that the source threads through \<open>createFunctionCallMessages\<close>.
  \<open>onFinal\<close> tells whether the hook is configured; its calls are recorded in the
  run.
\<close>

datatype fn_response = ReturnsNothing | ReturnsString string | ReturnsStream "string list" | Throws

record callbacks =
  experimental_onFunctionCall :: "(nat \<Rightarrow> json \<Rightarrow> fn_response) option"
  experimental_onToolCall :: "(nat \<Rightarrow> json \<Rightarrow> fn_response) option"
  experimental_streamData :: bool
  onFinal :: bool

record stream_run =
  enqueued :: "string list"
  onFinal_calls :: "string list"
  stream_error :: "error option"

text \<open>
  The closure state of \<open>createFunctionCallTransformer\<close>, the two openings its
  \<open>transform\<close> looks for, and \<open>createStreamDataTransformer\<close>, the stage used when no
  function or tool callback is configured.
\<close>

record interceptor =
  isFirstChunk :: bool
  aggregatedResponse :: string
  aggregatedFinalCompletionResponse :: string
  isFunctionStreamingIn :: bool

definition new_interceptor :: interceptor where
  "new_interceptor = \<lparr>isFirstChunk = True, aggregatedResponse = [],
     aggregatedFinalCompletionResponse = [], isFunctionStreamingIn = False\<rparr>"

definition startsWith :: "string \<Rightarrow> string \<Rightarrow> bool" where
  "startsWith s p = (take (length p) s = p)"

definition function_call_opening :: string where
  "function_call_opening = [CHR ''{'', dquote] @ ''function_call'' @ [dquote, CHR '':'']"

definition tool_calls_opening :: string where
  "tool_calls_opening = [CHR ''{'', dquote] @ ''tool_calls'' @ [dquote, CHR '':'']"

definition createStreamDataTransformer :: "bool \<Rightarrow> string list \<Rightarrow> error + string list" where
  "createStreamDataTransformer streamData chunks =
     (if \<not> streamData then Inr chunks
      else foldr (\<lambda>chunk rest.
             case formatStreamPart ''text'' (JStr chunk) of
               Inl e \<Rightarrow> Inl e
             | Inr line \<Rightarrow> (case rest of Inl e \<Rightarrow> Inl e | Inr ls \<Rightarrow> Inr (line # ls)))
           chunks (Inr []))"

text \<open>
  \<open>transform\<close>, for one chunk, and for the chunks of a whole input. Note that
  \<open>isFirstChunk\<close> is cleared only when a chunk starts with one of the openings.
\<close>

definition interceptor_transform ::
  "bool \<Rightarrow> interceptor \<Rightarrow> string \<Rightarrow> error + string list \<times> interceptor" where
  "interceptor_transform isComplexMode st chunk =
     (let message = chunk;
          st1 = st\<lparr>aggregatedFinalCompletionResponse :=
                     aggregatedFinalCompletionResponse st @ message\<rparr>;
          shouldHandleAsFunction =
            (isFirstChunk st \<and> (startsWith message function_call_opening
                                 \<or> startsWith message tool_calls_opening))
      in if shouldHandleAsFunction then
           Inr ([], st1\<lparr>isFunctionStreamingIn := True,
                        aggregatedResponse := aggregatedResponse st @ message,
                        isFirstChunk := False\<rparr>)
         else if \<not> isFunctionStreamingIn st then
           (if isComplexMode then
              (case formatStreamPart ''text'' (JStr message) of
                 Inl e \<Rightarrow> Inl e
               | Inr line \<Rightarrow> Inr ([line], st1))
            else Inr ([chunk], st1))
         else Inr ([], st1\<lparr>aggregatedResponse := aggregatedResponse st @ message\<rparr>))"

fun interceptor_transforms ::
  "bool \<Rightarrow> interceptor \<Rightarrow> string list \<Rightarrow> error + string list \<times> interceptor" where
  "interceptor_transforms isComplexMode st [] = Inr ([], st)"
| "interceptor_transforms isComplexMode st (chunk # chunks) =
     (case interceptor_transform isComplexMode st chunk of
        Inl e \<Rightarrow> Inl e
      | Inr (out1, st1) \<Rightarrow>
          (case interceptor_transforms isComplexMode st1 chunks of
             Inl e \<Rightarrow> Inl e
           | Inr (out2, st2) \<Rightarrow> Inr (out1 @ out2, st2)))"

text \<open>
  The two callback invocations of \<open>flush\<close>. A property read on \<open>undefined\<close> or
  \<open>null\<close> and an iteration over a value that is not iterable throw \<open>TypeError\<close>;
  \<open>JSON.parse\<close> reads the string of its argument, and throws \<open>SyntaxError\<close> for
  \<open>undefined\<close>. Only the call of
  \<open>experimental_onToolCall\<close> stands in a \<open>try\<close>: when it throws, the response
  obtained before is kept.
\<close>

definition call_onFunctionCall ::
  "(nat \<Rightarrow> json \<Rightarrow> fn_response) \<Rightarrow> nat \<Rightarrow> json \<Rightarrow> error + fn_response" where
  "call_onFunctionCall f depth payload =
     (let fc = get_prop (Some payload) ''function_call'' in
      if is_nullish fc then Inl TypeError
      else
        (case get_prop fc ''arguments'' of
           None \<Rightarrow> Inl SyntaxError
         | Some a \<Rightarrow>
             (case JSON_parse (string_of a) of
                Inl e \<Rightarrow> Inl e
              | Inr argumentsPayload \<Rightarrow>
                  (case f depth (object_literal [(''name'', get_prop fc ''name''),
                                                 (''arguments'', Some argumentsPayload)]) of
                     Throws \<Rightarrow> Inl CallbackThrew
                   | r \<Rightarrow> Inr r))))"

definition tool_entry :: "json \<Rightarrow> error + json" where
  "tool_entry tool =
     (let f = get_prop (Some tool) ''function'' in
      if is_nullish (Some tool) \<or> is_nullish f then Inl TypeError
      else Inr (object_literal
                  [(''id'', get_prop (Some tool) ''id''),
                   (''type'', Some (JStr ''function'')),
                   (''func'', Some (object_literal [(''name'', get_prop f ''name''),
                                                    (''arguments'', get_prop f ''arguments'')]))]))"

fun tool_entries :: "json list \<Rightarrow> error + json list" where
  "tool_entries [] = Inr []"
| "tool_entries (tool # tools) =
     (case tool_entry tool of
        Inl e \<Rightarrow> Inl e
      | Inr t \<Rightarrow> (case tool_entries tools of Inl e \<Rightarrow> Inl e | Inr ts \<Rightarrow> Inr (t # ts)))"

definition call_onToolCall ::
  "(nat \<Rightarrow> json \<Rightarrow> fn_response) \<Rightarrow> nat \<Rightarrow> json \<Rightarrow> fn_response \<Rightarrow> error + fn_response" where
  "call_onToolCall g depth payload functionResponse =
     (case (case get_prop (Some payload) ''tool_calls'' of
              Some (JArr tools) \<Rightarrow> tool_entries tools
            | Some (JStr s) \<Rightarrow> if s = [] then Inr [] else Inl TypeError
            | _ \<Rightarrow> Inl TypeError) of
        Inl e \<Rightarrow> Inl e
      | Inr tools \<Rightarrow>
          (case g depth (JObj [(''tools'', JArr tools)]) of
             Throws \<Rightarrow> Inr functionResponse
           | r \<Rightarrow> Inr r))"

definition function_response :: "callbacks \<Rightarrow> nat \<Rightarrow> json \<Rightarrow> error + fn_response" where
  "function_response cb depth payload =
     (case (case experimental_onFunctionCall cb of
              None \<Rightarrow> Inr ReturnsNothing
            | Some f \<Rightarrow> call_onFunctionCall f depth payload) of
        Inl e \<Rightarrow> Inl e
      | Inr functionResponse \<Rightarrow>
          (case experimental_onToolCall cb of
             None \<Rightarrow> Inr functionResponse
           | Some g \<Rightarrow> call_onToolCall g depth payload functionResponse))"

fun falsy :: "fn_response \<Rightarrow> bool" where
  "falsy ReturnsNothing = True"
| "falsy (ReturnsString s) = (s = [])"
| "falsy r = False"

text \<open>
  \<open>flush\<close>. \<open>out\<close> are the chunks enqueued by the transforms before, and
  \<open>continue\<close> runs \<open>OpenAIStream\<close> on a new response and reads it to its end. The
  \<open>finally\<close> block calls the hook when it is still set and the aggregate is
  non-empty; before it starts a continuation, \<open>flush\<close> unsets the hook on its own
  callbacks object, after it has copied the callbacks for the continuation.
\<close>

definition interceptor_flush ::
  "(string list \<Rightarrow> stream_run option) \<Rightarrow> callbacks \<Rightarrow> nat \<Rightarrow> string list \<Rightarrow> interceptor
     \<Rightarrow> stream_run option" where
  "interceptor_flush continue cb depth out st =
     (let isComplexMode = experimental_streamData cb;
          hook = (if onFinal cb \<and> aggregatedFinalCompletionResponse st \<noteq> []
                  then [aggregatedFinalCompletionResponse st] else []);
          failed = (\<lambda>e. Some \<lparr>enqueued = out, onFinal_calls = hook, stream_error = Some e\<rparr>);
          finish = (\<lambda>chunks. Some \<lparr>enqueued = out @ chunks, onFinal_calls = hook, stream_error = None\<rparr>)
      in if \<not> isFirstChunk st \<and> isFunctionStreamingIn st
            \<and> (experimental_onFunctionCall cb \<noteq> None \<or> experimental_onToolCall cb \<noteq> None)
         then
           (case JSON_parse (aggregatedResponse st) of
              Inl e \<Rightarrow> failed e
            | Inr payload \<Rightarrow>
                (case function_response cb depth payload of
                   Inl e \<Rightarrow> failed e
                 | Inr functionResponse \<Rightarrow>
                     if falsy functionResponse then
                       (if isComplexMode then
                          (case formatStreamPart
                                  (if truthy (get_prop (Some payload) ''function_call'')
                                   then ''function_call'' else ''tool_calls'') payload of
                             Inl e \<Rightarrow> failed e
                           | Inr line \<Rightarrow> finish [line])
                        else finish [aggregatedResponse st])
                     else
                       (case functionResponse of
                          ReturnsString s \<Rightarrow>
                            (if isComplexMode then
                               (case formatStreamPart ''text'' (JStr s) of
                                  Inl e \<Rightarrow> failed e
                                | Inr line \<Rightarrow> finish [line])
                             else finish [s])
                        | ReturnsStream response \<Rightarrow>
                            (case continue response of
                               None \<Rightarrow> None
                             | Some inner \<Rightarrow>
                                 Some \<lparr>enqueued = out @ enqueued inner,
                                       onFinal_calls = onFinal_calls inner,
                                       stream_error = stream_error inner\<rparr>)
                        | _ \<Rightarrow> finish [])))
         else finish [])"

definition createFunctionCallTransformer ::
  "(string list \<Rightarrow> stream_run option) \<Rightarrow> callbacks \<Rightarrow> nat \<Rightarrow> string list
     \<Rightarrow> stream_run option" where
  "createFunctionCallTransformer continue cb depth chunks =
     (case interceptor_transforms (experimental_streamData cb) new_interceptor chunks of
        Inl e \<Rightarrow> Some \<lparr>enqueued = [], onFinal_calls = [], stream_error = Some e\<rparr>
      | Inr (out, st) \<Rightarrow> interceptor_flush continue cb depth out st)"

text \<open>
  \<open>OpenAIStream\<close> on the text units of a response: the interceptor when a function or
  tool callback is configured (the callbacks stage before it is then given no hook),
  else the callbacks stage, which calls the hook with the aggregate, followed by
  \<open>createStreamDataTransformer\<close>. A callback that is not configured is a key absent
  from the callbacks object. A callback may answer every call with a new
  response, so the first argument bounds the depth of continuations; \<open>None\<close> is a run
  that needs more.
\<close>

fun OpenAIStream :: "nat \<Rightarrow> callbacks \<Rightarrow> nat \<Rightarrow> string list \<Rightarrow> stream_run option" where
  "OpenAIStream 0 cb depth units = None"
| "OpenAIStream (Suc fuel) cb depth units =
     (if experimental_onFunctionCall cb \<noteq> None \<or> experimental_onToolCall cb \<noteq> None then
        createFunctionCallTransformer (\<lambda>response. OpenAIStream fuel cb (Suc depth) response)
          cb depth units
      else
        (case createStreamDataTransformer (experimental_streamData cb) units of
           Inl e \<Rightarrow> Some \<lparr>enqueued = [], onFinal_calls = [], stream_error = Some e\<rparr>
         | Inr out \<Rightarrow>
             Some \<lparr>enqueued = out,
                   onFinal_calls = (if onFinal cb then [concat units] else []),
                   stream_error = None\<rparr>))"

text \<open>
  Notions used to state the claims, and example inputs: the line of a text part and of
  a structured part, the hook calls of an invocation that ends its run, a continuation's
  run spliced behind the chunks forwarded before, the capturing state, a chunk that
  starts with one of the two openings, the chunks enqueued for chunks that are
  forwarded, the callbacks' response to a captured text (\<open>flush\<close> parses the text and
  hands the payload to the callbacks); callbacks that are absent, answer nothing, or
  seed continuations.
\<close>

definition text_line :: "string \<Rightarrow> string" where
  "text_line message = ''0:'' @ stringify (JStr message) @ [CHR 0x0A]"

definition structured_line :: "json \<Rightarrow> string" where
  "structured_line payload =
     (if truthy (get_prop (Some payload) ''function_call'') then ''1:'' else ''7:'')
     @ stringify payload @ [CHR 0x0A]"

definition hook_calls :: "callbacks \<Rightarrow> string list \<Rightarrow> string list" where
  "hook_calls cb units = (if onFinal cb \<and> concat units \<noteq> [] then [concat units] else [])"

definition spliced :: "string list \<Rightarrow> stream_run \<Rightarrow> stream_run" where
  "spliced out inner =
     \<lparr>enqueued = out @ enqueued inner, onFinal_calls = onFinal_calls inner,
      stream_error = stream_error inner\<rparr>"

definition capturing :: "callbacks \<Rightarrow> interceptor \<Rightarrow> bool" where
  "capturing cb st =
     (\<not> isFirstChunk st \<and> isFunctionStreamingIn st
      \<and> (experimental_onFunctionCall cb \<noteq> None \<or> experimental_onToolCall cb \<noteq> None))"

definition has_opening :: "string \<Rightarrow> bool" where
  "has_opening message =
     (startsWith message function_call_opening \<or> startsWith message tool_calls_opening)"

definition forwarded :: "callbacks \<Rightarrow> string list \<Rightarrow> string list" where
  "forwarded cb chunks = (if experimental_streamData cb then map text_line chunks else chunks)"

definition captured_response :: "callbacks \<Rightarrow> nat \<Rightarrow> string \<Rightarrow> error + fn_response" where
  "captured_response cb depth captured =
     (case JSON_parse captured of
        Inl e \<Rightarrow> Inl e
      | Inr payload \<Rightarrow> function_response cb depth payload)"

definition no_callbacks :: callbacks where
  "no_callbacks = \<lparr>experimental_onFunctionCall = None, experimental_onToolCall = None,
     experimental_streamData = True, onFinal = True\<rparr>"

definition function_call_chunks :: "string list" where
  \<open>function_call_chunks = [''{"function_call":'', ''{"name":"f","arguments":"{}"}}'']\<close>

definition second_call_chunks :: "string list" where
  \<open>second_call_chunks = [''{"function_call":{"name":"g","arguments":"{}"}}'']\<close>

definition function_call_payload :: json where
  "function_call_payload =
     JObj [(''function_call'', JObj [(''name'', JStr ''f''), (''arguments'', JStr ''{}'')])]"

definition answers_nothing :: callbacks where
  "answers_nothing = no_callbacks\<lparr>experimental_onFunctionCall := Some (\<lambda>depth call. ReturnsNothing)\<rparr>"

definition seeds_empty :: callbacks where
  "seeds_empty = no_callbacks\<lparr>experimental_onFunctionCall :=
     Some (\<lambda>depth call. if depth = 0 then ReturnsStream [] else ReturnsNothing)\<rparr>"

definition seeds_text :: callbacks where
  "seeds_text = no_callbacks\<lparr>experimental_onFunctionCall :=
     Some (\<lambda>depth call. if depth = 0 then ReturnsStream [''a'', ''b''] else ReturnsNothing)\<rparr>"

definition late_call_chunks :: "string list" where
  "late_call_chunks = ''hi'' # function_call_chunks"

definition seeds_call_then_string :: callbacks where
  "seeds_call_then_string = no_callbacks\<lparr>experimental_onFunctionCall :=
     Some (\<lambda>depth call. if depth = 0 then ReturnsStream second_call_chunks
                          else ReturnsString ''done'')\<rparr>"

section \<open>The JSON codec round-trips\<close>

declare digits.simps [simp del]

lemma hex_val_hex_digit: "k < 16 \<Longrightarrow> hex_val (hex_digit k) = Some k"
  by (auto simp: hex_val_def hex_digit_def Let_def)

lemma hex_val_zero: "hex_val (CHR ''0'') = Some 0"
  by (simp add: hex_val_def)

lemma cons_result_Inr: "cons_result c (Inr (s, r)) = Inr (c # s, r)"
  by (simp add: cons_result_def)

lemma unescape_simps:
  "unescape (CHR 0x22) = Some (CHR 0x22)" "unescape (CHR 0x5C) = Some (CHR 0x5C)"
  "unescape (CHR ''b'') = Some (CHR 0x08)" "unescape (CHR ''f'') = Some (CHR 0x0C)"
  "unescape (CHR ''n'') = Some (CHR 0x0A)" "unescape (CHR ''r'') = Some (CHR 0x0D)"
  "unescape (CHR ''t'') = Some (CHR 0x09)"
  by (simp_all add: unescape_def dquote_def backslash_def)

lemma psb_quote_char:
  "parse_string_body (quote_char c @ X) = cons_result c (parse_string_body X)"
proof -
  consider (dq) "c = dquote" | (bs) "c = backslash" | (b) "c = CHR 0x08" | (f) "c = CHR 0x0C"
    | (n) "c = CHR 0x0A" | (r) "c = CHR 0x0D" | (t) "c = CHR 0x09"
    | (ctl) "c \<noteq> dquote" "c \<noteq> backslash" "c \<noteq> CHR 0x08" "c \<noteq> CHR 0x0C" "c \<noteq> CHR 0x0A"
        "c \<noteq> CHR 0x0D" "c \<noteq> CHR 0x09" "(of_char c :: nat) < 32"
    | (plain) "c \<noteq> dquote" "c \<noteq> backslash" "\<not> (of_char c :: nat) < 32"
    by (cases "(of_char c :: nat) < 32") auto
  then show ?thesis
  proof cases
    case ctl
    let ?n = "of_char c :: nat"
    have q: "quote_char c = [backslash, CHR ''u'', CHR ''0'', CHR ''0'',
         hex_digit (?n div 16), hex_digit (?n mod 16)]"
      using ctl by (simp add: quote_char_def)
    have h1: "hex_val (hex_digit (?n div 16)) = Some (?n div 16)"
      using ctl(8) by (intro hex_val_hex_digit) simp
    have h2: "hex_val (hex_digit (?n mod 16)) = Some (?n mod 16)"
      by (intro hex_val_hex_digit) simp
    have c: "char_of (16 * (?n div 16) + ?n mod 16) = c"
      by simp
    show ?thesis
      unfolding q using h1 h2 c
      by (simp add: hex_val_zero dquote_def backslash_def)
  next
    case plain
    then show ?thesis by (auto simp: quote_char_def dquote_def backslash_def)
  qed (simp_all add: quote_char_def unescape_simps dquote_def backslash_def)
qed

lemma parse_string_body_quote:
  "parse_string_body (concat (map quote_char s) @ dquote # rest) = Inr (s, rest)"
  by (induction s) (simp_all add: psb_quote_char cons_result_Inr)

lemma of_char_digit: "(k::nat) < 10 \<Longrightarrow> (of_char (char_of (48 + k)) :: nat) = 48 + k"
  by simp

lemma is_digit_char_of: "(k::nat) < 10 \<Longrightarrow> is_digit (char_of (48 + k))"
  unfolding is_digit_def by (simp only: of_char_digit) simp

lemma digit_val_char_of: "(k::nat) < 10 \<Longrightarrow> digit_val (char_of (48 + k)) = k"
  unfolding digit_val_def by (simp only: of_char_digit)

lemma char_of_zero: "char_of (48 :: nat) = CHR ''0''"
proof -
  have "(of_char (CHR ''0'') :: nat) = 48" by simp
  then have "char_of (48 :: nat) = char_of (of_char (CHR ''0'') :: nat)" by simp
  then show ?thesis by (simp only: char_of_char)
qed

lemma char_of_digit_nonzero: "0 < (k::nat) \<Longrightarrow> k < 10 \<Longrightarrow> char_of (48 + k) \<noteq> CHR ''0''"
proof
  assume k: "0 < k" "k < 10" and e: "char_of (48 + k) = CHR ''0''"
  from e have "(of_char (char_of (48 + k)) :: nat) = of_char (CHR ''0'')" by simp
  then have "48 + k = (48 :: nat)" using k(2) by (simp only: of_char_digit) simp
  with k(1) show False by simp
qed

lemma digits_all: "\<forall>c\<in>set (digits n). is_digit c"
proof (induction n rule: digits.induct)
  case (1 n)
  show ?case
  proof (cases "n < 10")
    case True
    then show ?thesis by (subst digits.simps) (simp add: is_digit_char_of)
  next
    case False
    have "is_digit (char_of (48 + n mod 10))"
      by (rule is_digit_char_of) simp
    with False 1 show ?thesis by (subst digits.simps) simp
  qed
qed

lemma digits_nonempty: "digits n \<noteq> []"
  by (subst digits.simps) simp

lemma digits_val: "foldl (\<lambda>a c. 10 * a + digit_val c) 0 (digits n) = n"
proof (induction n rule: digits.induct)
  case (1 n)
  show ?case
  proof (cases "n < 10")
    case True
    then show ?thesis by (subst digits.simps) (simp add: digit_val_char_of)
  next
    case False
    have "digit_val (char_of (48 + n mod 10)) = n mod 10"
      by (rule digit_val_char_of) simp
    with False 1 show ?thesis by (subst digits.simps) simp
  qed
qed

lemma digits_hd: "0 < n \<Longrightarrow> hd (digits n) \<noteq> CHR ''0''"
proof (induction n rule: digits.induct)
  case (1 n)
  show ?case
  proof (cases "n < 10")
    case True
    with 1(2) have "char_of (48 + n) \<noteq> CHR ''0''"
      by (simp add: char_of_digit_nonzero)
    with True show ?thesis by (subst digits.simps) simp
  next
    case False
    then have "0 < n div 10" by simp
    with False 1 show ?thesis by (subst digits.simps) (simp add: digits_nonempty)
  qed
qed

lemma digits_zero: "digits 0 = ''0''"
  by (subst digits.simps) (simp add: char_of_zero)

lemma digits_length: "1 < length (digits n) \<Longrightarrow> 0 < n"
  by (cases n) (simp_all add: digits_zero)

lemma takeWhile_digits:
  "num_delim rest \<Longrightarrow> takeWhile is_digit (digits n @ rest) = digits n"
  using digits_all [of n]
  by (cases rest) (simp_all add: num_delim_def takeWhile_append)

lemma dropWhile_digits:
  "num_delim rest \<Longrightarrow> dropWhile is_digit (digits n @ rest) = rest"
  using digits_all [of n]
  by (cases rest) (simp_all add: num_delim_def dropWhile_append)

lemma parse_nat_digits:
  assumes "num_delim rest" "n \<le> 9007199254740992"
  shows "parse_nat (digits n @ rest) = Inr (n, rest)"
proof -
  have a: "\<not> (hd (digits n) = CHR ''0'' \<and> 1 < length (digits n))"
    using digits_hd digits_length by blast
  have b: "\<not> (rest \<noteq> [] \<and> (hd rest = CHR ''.'' \<or> hd rest = CHR ''e'' \<or> hd rest = CHR ''E''))"
    using assms by (cases rest) (simp_all add: num_delim_def)
  show ?thesis
    unfolding parse_nat_def Let_def takeWhile_digits [OF assms(1)] dropWhile_digits [OF assms(1)]
    using a b assms(2) by (simp add: digits_nonempty digits_val)
qed

lemma is_digit_not_special:
  assumes "is_digit c"
  shows "\<not> is_ws c" "c \<noteq> CHR '']''" "c \<noteq> CHR ''}''" "c \<noteq> CHR ''n''" "c \<noteq> CHR ''t''"
    "c \<noteq> CHR ''f''" "c \<noteq> dquote" "c \<noteq> CHR ''[''" "c \<noteq> CHR ''{''"
  using assms by (auto simp: is_digit_def is_ws_def dquote_def)

lemma digits_Cons: "\<exists>c cs. digits n = c # cs \<and> is_digit c"
  using digits_nonempty [of n] digits_all [of n] by (cases "digits n") auto

lemma starts_value_stringify: "starts_value (stringify v @ rest)"
proof (cases v)
  case (JNum i)
  obtain c cs where "digits (nat i) = c # cs" "is_digit c" using digits_Cons by blast
  moreover obtain d ds where "digits (nat (- i)) = d # ds" "is_digit d" using digits_Cons by blast
  ultimately show ?thesis using JNum is_digit_not_special(1-3) [of c]
    by (simp add: starts_value_def is_ws_def)
qed (auto simp: starts_value_def is_ws_def quote_def dquote_def)

lemma skip_ws_starts_value: "starts_value s \<Longrightarrow> skip_ws s = s"
  by (cases s) (simp_all add: starts_value_def skip_ws_def)

lemma skip_ws_Cons: "\<not> is_ws c \<Longrightarrow> skip_ws (c # cs) = c # cs"
  by (simp add: skip_ws_def)

lemma not_ws_punct: "\<not> is_ws (CHR '','')" "\<not> is_ws (CHR '']'')" "\<not> is_ws (CHR ''}'')" "\<not> is_ws (CHR '':'')"
  by (simp_all add: is_ws_def)

lemma num_delim_punct:
  "num_delim (CHR '','' # r)" "num_delim (CHR '']'' # r)" "num_delim (CHR ''}'' # r)"
  "num_delim (CHR 0x0A # r)" "num_delim []"
  by (simp_all add: num_delim_def is_digit_def)

lemma is_digit_not_minus: "is_digit c \<Longrightarrow> c \<noteq> CHR ''-''"
  by (auto simp: is_digit_def)

lemma parse_value_null: "parse_value (Suc n) (''null'' @ rest) = Inr (JNull, rest)"
  by (simp add: parse_literal_def)

lemma parse_value_bool:
  "parse_value (Suc n) ((if b then ''true'' else ''false'') @ rest) = Inr (JBool b, rest)"
  by (simp add: parse_literal_def)

lemma parse_value_str: "parse_value (Suc n) (quote s @ rest) = Inr (JStr s, rest)"
proof -
  have d: "dquote \<noteq> CHR ''n''" "dquote \<noteq> CHR ''t''" "dquote \<noteq> CHR ''f''"
    by (simp_all add: dquote_def)
  show ?thesis
    using d by (simp add: quote_def parse_string_body_quote)
qed

lemma parse_number_digits:
  "num_delim rest \<Longrightarrow> k \<le> 9007199254740992
     \<Longrightarrow> parse_number (digits k @ rest) = Inr (JNum (int k), rest)"
proof -
  assume r: "num_delim rest" and k: "k \<le> 9007199254740992"
  obtain c cs where c: "digits k = c # cs" "is_digit c" using digits_Cons by blast
  have "parse_number (digits k @ rest) =
      (case parse_nat (digits k @ rest) of Inl e \<Rightarrow> Inl e | Inr (n, rest) \<Rightarrow> Inr (JNum (int n), rest))"
    using c is_digit_not_minus [of c] by (simp add: parse_number_def)
  then show ?thesis by (simp add: parse_nat_digits [OF r k])
qed

lemma parse_number_minus:
  "num_delim rest \<Longrightarrow> k \<le> 9007199254740992
     \<Longrightarrow> parse_number (CHR ''-'' # digits k @ rest) = Inr (JNum (- int k), rest)"
  by (simp add: parse_number_def parse_nat_digits)

lemma parse_value_num:
  assumes "num_delim rest" "\<bar>i\<bar> \<le> 9007199254740992"
  shows "parse_value (Suc n) (stringify (JNum i) @ rest) = Inr (JNum i, rest)"
proof (cases "i < 0")
  case True
  have "parse_value (Suc n) (CHR ''-'' # digits (nat (- i)) @ rest)
      = parse_number (CHR ''-'' # digits (nat (- i)) @ rest)"
    by (simp add: dquote_def)
  moreover have "nat (- i) \<le> 9007199254740992" using assms(2) True by simp
  ultimately show ?thesis using True by (simp add: parse_number_minus [OF assms(1)])
next
  case False
  obtain c cs where c: "digits (nat i) = c # cs" "is_digit c" using digits_Cons by blast
  have "parse_value (Suc n) (digits (nat i) @ rest) = parse_number (digits (nat i) @ rest)"
    using c is_digit_not_special [OF c(2)] by simp
  moreover have "nat i \<le> 9007199254740992" using assms(2) False by simp
  ultimately show ?thesis using False by (simp add: parse_number_digits [OF assms(1)])
qed

lemma parse_value_arr_empty:
  "parse_value (Suc n) (CHR ''['' # CHR '']'' # rest) = Inr (JArr [], rest)"
  by (simp add: dquote_def skip_ws_Cons not_ws_punct)

lemma parse_value_obj_empty:
  "parse_value (Suc n) (CHR ''{'' # CHR ''}'' # rest) = Inr (JObj [], rest)"
  by (simp add: dquote_def skip_ws_Cons not_ws_punct)

lemma parse_value_arr:
  "starts_value cs \<Longrightarrow> parse_value (Suc n) (CHR ''['' # cs) = parse_elements n cs []"
  by (cases cs) (simp_all add: starts_value_def skip_ws_def dquote_def)

lemma parse_value_obj:
  "starts_value cs \<Longrightarrow> parse_value (Suc n) (CHR ''{'' # cs) = parse_members n cs []"
  by (cases cs) (simp_all add: starts_value_def skip_ws_def dquote_def)

lemma parse_elements_step_last:
  assumes "parse_value n s = Inr (v, CHR '']'' # rest)"
  shows "parse_elements (Suc n) s acc = Inr (JArr (acc @ [v]), rest)"
  using assms by (simp add: skip_ws_Cons not_ws_punct)

lemma parse_elements_step_more:
  assumes "parse_value n s = Inr (v, CHR '','' # s')" "starts_value s'"
  shows "parse_elements (Suc n) s acc = parse_elements n s' (acc @ [v])"
  using assms by (simp add: skip_ws_Cons not_ws_punct skip_ws_starts_value)

lemma parse_elements_join:
  assumes "\<And>x n rest. x \<in> set xs \<Longrightarrow> fuel_of x \<le> n \<Longrightarrow> num_delim rest
             \<Longrightarrow> parse_value n (stringify x @ rest) = Inr (x, rest)"
    and "xs \<noteq> []"
    and "length xs + sum_list (map fuel_of xs) \<le> n"
  shows "parse_elements n (join_comma (map stringify xs) @ CHR '']'' # rest) acc
           = Inr (JArr (acc @ xs), rest)"
  using assms
proof (induction xs arbitrary: n acc)
  case Nil
  then show ?case by simp
next
  case (Cons x xs)
  from Cons.prems(3) obtain m where n: "n = Suc m" by (cases n) auto
  with Cons.prems(3) have fx: "fuel_of x \<le> m" by simp
  show ?case
  proof (cases xs)
    case Nil
    have "parse_value m (stringify x @ CHR '']'' # rest) = Inr (x, CHR '']'' # rest)"
      using Cons.prems(1) [of x m] fx by (simp add: num_delim_punct)
    from parse_elements_step_last [OF this] show ?thesis
      using Nil n by simp
  next
    case (Cons y ys)
    let ?J = "join_comma (map stringify (y # ys)) @ CHR '']'' # rest"
    have sv: "starts_value ?J"
      using starts_value_stringify [of y] by (cases ys) simp_all
    have pv: "parse_value m (stringify x @ CHR '','' # ?J) = Inr (x, CHR '','' # ?J)"
      using Cons.prems(1) [of x m] fx by (simp add: num_delim_punct)
    have fm: "length xs + sum_list (map fuel_of xs) \<le> m"
      using Cons.prems(3) n by simp
    have ih: "parse_elements m ?J (acc @ [x]) = Inr (JArr ((acc @ [x]) @ xs), rest)"
      using Cons.IH [of m "acc @ [x]"] Cons.prems(1) fm Cons by simp
    show ?thesis
      using parse_elements_step_more [OF pv sv, of acc] ih Cons n by simp
  qed
qed

declare parse_value.simps [simp del] parse_elements.simps [simp del] parse_members.simps [simp del]

lemma takeWhile_all: "\<forall>x\<in>set xs. P x \<Longrightarrow> takeWhile P xs = xs"
  by (induction xs) simp_all

lemma dropWhile_all: "\<forall>x\<in>set xs. P x \<Longrightarrow> dropWhile P xs = []"
  by (induction xs) simp_all

lemma set_property_last:
  assumes "distinct (map fst (acc @ [(k, v)]))" "sorted_wrt key_before (map fst (acc @ [(k, v)]))"
  shows "set_property k v acc = acc @ [(k, v)]"
proof -
  have fresh: "k \<notin> set (map fst acc)" using assms(1) by auto
  have before: "\<forall>kv\<in>set acc. key_before (fst kv) k"
    using assms(2) by (simp add: sorted_wrt_append)
  show ?thesis
  proof (cases "array_index k")
    case None
    with fresh show ?thesis by (simp add: set_property_def)
  next
    case (Some i)
    have "\<forall>kv\<in>set acc. index_below i kv"
      using before Some by (auto simp: key_before_def index_below_def split: option.splits)
    then have "takeWhile (index_below i) acc = acc" "dropWhile (index_below i) acc = []"
      by (simp_all add: takeWhile_all dropWhile_all)
    with fresh Some show ?thesis by (simp add: set_property_def)
  qed
qed

lemma parse_members_head:
  "parse_members (Suc n) (quote k @ CHR '':'' # s) acc =
     (case parse_value n (skip_ws s) of
        Inl e \<Rightarrow> Inl e
      | Inr (v, s4) \<Rightarrow>
          (case skip_ws s4 of
             [] \<Rightarrow> Inl SyntaxError
           | d # s5 \<Rightarrow>
               if d = CHR '','' then parse_members n (skip_ws s5) (set_property k v acc)
               else if d = CHR ''}'' then Inr (JObj (set_property k v acc), s5)
               else Inl SyntaxError))"
  by (simp add: parse_members.simps quote_def parse_string_body_quote skip_ws_Cons not_ws_punct)

lemma parse_members_step_last:
  assumes "parse_value n s = Inr (v, CHR ''}'' # rest)" "starts_value s"
  shows "parse_members (Suc n) (quote k @ CHR '':'' # s) acc = Inr (JObj (set_property k v acc), rest)"
  unfolding parse_members_head using assms
  by (simp add: skip_ws_Cons not_ws_punct skip_ws_starts_value)

lemma parse_members_step_more:
  assumes "parse_value n s = Inr (v, CHR '','' # s')" "starts_value s" "starts_value s'"
  shows "parse_members (Suc n) (quote k @ CHR '':'' # s) acc
           = parse_members n s' (set_property k v acc)"
  unfolding parse_members_head using assms
  by (simp add: skip_ws_Cons not_ws_punct skip_ws_starts_value)

lemma starts_value_quote: "starts_value (quote k @ r)"
  by (simp add: starts_value_def quote_def dquote_def is_ws_def)

lemma member_text_pair: "member_text (k, v) = quote k @ CHR '':'' # stringify v"
  by (simp add: member_text_def)

lemma starts_value_member: "starts_value (member_text kv @ r)"
  using starts_value_quote [of "fst kv"] by (simp add: member_text_def)

lemma parse_members_join:
  assumes "\<And>kv n rest. kv \<in> set kvs \<Longrightarrow> fuel_of (snd kv) \<le> n \<Longrightarrow> num_delim rest
             \<Longrightarrow> parse_value n (stringify (snd kv) @ rest) = Inr (snd kv, rest)"
    and "kvs \<noteq> []"
    and "length kvs + sum_list (map (\<lambda>kv. fuel_of (snd kv)) kvs) \<le> n"
    and "distinct (map fst (acc @ kvs))"
    and "sorted_wrt key_before (map fst (acc @ kvs))"
  shows "parse_members n (join_comma (map member_text kvs) @ CHR ''}'' # rest) acc
           = Inr (JObj (acc @ kvs), rest)"
  using assms
proof (induction kvs arbitrary: n acc)
  case Nil
  then show ?case by simp
next
  case (Cons kv kvs)
  obtain k v where kv: "kv = (k, v)" by (cases kv)
  from Cons.prems(3) obtain m where n: "n = Suc m" by (cases n) auto
  with Cons.prems(3) kv have fx: "fuel_of v \<le> m" by simp
  have "distinct (map fst (acc @ [(k, v)]))"
    using Cons.prems(4) kv by auto
  moreover have so: "sorted_wrt key_before (map fst (acc @ [(k, v)]))"
    using Cons.prems(5) kv by (simp add: sorted_wrt_append)
  ultimately have upd: "set_property k v acc = acc @ [(k, v)]"
    by (rule set_property_last)
  show ?case
  proof (cases kvs)
    case Nil
    have "parse_value m (stringify v @ CHR ''}'' # rest) = Inr (v, CHR ''}'' # rest)"
      using Cons.prems(1) [of kv m] fx kv by (simp add: num_delim_punct)
    from parse_members_step_last [OF this starts_value_stringify, of k acc] show ?thesis
      using Nil n kv upd by (simp add: member_text_pair)
  next
    case (Cons kv' kvs')
    let ?J = "join_comma (map member_text (kv' # kvs')) @ CHR ''}'' # rest"
    have sv: "starts_value ?J"
      using starts_value_member [of kv'] by (cases kvs') simp_all
    have pv: "parse_value m (stringify v @ CHR '','' # ?J) = Inr (v, CHR '','' # ?J)"
      using Cons.prems(1) [of kv m] fx kv by (simp add: num_delim_punct)
    have fm: "length kvs + sum_list (map (\<lambda>kv. fuel_of (snd kv)) kvs) \<le> m"
      using Cons.prems(3) n by simp
    have di: "distinct (map fst ((acc @ [(k, v)]) @ kvs))"
      using Cons.prems(4) kv by simp
    have so': "sorted_wrt key_before (map fst ((acc @ [(k, v)]) @ kvs))"
      using Cons.prems(5) kv by simp
    have ih: "parse_members m ?J (acc @ [(k, v)]) = Inr (JObj ((acc @ [(k, v)]) @ kvs), rest)"
      using Cons.IH [of m "acc @ [(k, v)]"] Cons.prems(1) fm di so' Cons by simp
    show ?thesis
      using parse_members_step_more [OF pv starts_value_stringify sv, of k acc] ih Cons n kv upd
      by (simp add: member_text_pair)
  qed
qed

lemma stringify_obj: "stringify (JObj kvs) = CHR ''{'' # join_comma (map member_text kvs) @ ''}''"
  by (simp add: member_text_def [abs_def])

lemma starts_value_join_elems:
  "xs \<noteq> [] \<Longrightarrow> starts_value (join_comma (map stringify xs) @ r)"
proof (cases xs)
  case (Cons x xs')
  then show ?thesis using starts_value_stringify [of x] by (cases xs') simp_all
qed simp

lemma starts_value_join_members:
  "kvs \<noteq> [] \<Longrightarrow> starts_value (join_comma (map member_text kvs) @ r)"
proof (cases kvs)
  case (Cons x xs')
  then show ?thesis using starts_value_member [of x]
    by (cases xs') simp_all
qed simp

theorem parse_value_stringify:
  "wf_json v \<Longrightarrow> fuel_of v \<le> n \<Longrightarrow> num_delim rest
     \<Longrightarrow> parse_value n (stringify v @ rest) = Inr (v, rest)"
proof (induction v arbitrary: n rest)
  case JNull
  then obtain m where "n = Suc m" by (cases n) auto
  then show ?case using parse_value_null by simp
next
  case (JBool b)
  then obtain m where "n = Suc m" by (cases n) auto
  then show ?case using parse_value_bool [of m b rest] by simp
next
  case (JNum i)
  then obtain m where "n = Suc m" by (cases n) auto
  then show ?case using parse_value_num [OF JNum.prems(3), of i m] JNum.prems(1) by simp
next
  case (JStr s)
  then obtain m where "n = Suc m" by (cases n) auto
  then show ?case using parse_value_str [of m s rest] by simp
next
  case (JArr xs)
  from JArr.prems(2) obtain m where n: "n = Suc m" by (cases n) auto
  show ?case
  proof (cases "xs = []")
    case True
    then show ?thesis using n parse_value_arr_empty by simp
  next
    case False
    have ih: "\<And>x n rest. x \<in> set xs \<Longrightarrow> fuel_of x \<le> n \<Longrightarrow> num_delim rest
             \<Longrightarrow> parse_value n (stringify x @ rest) = Inr (x, rest)"
      using JArr.IH JArr.prems(1) by (simp add: list_all_iff)
    have f: "length xs + sum_list (map fuel_of xs) \<le> m"
      using JArr.prems(2) n by simp
    have "parse_value n (CHR ''['' # join_comma (map stringify xs) @ CHR '']'' # rest)
        = parse_elements m (join_comma (map stringify xs) @ CHR '']'' # rest) []"
      unfolding n by (rule parse_value_arr [OF starts_value_join_elems [OF False]])
    also have "\<dots> = Inr (JArr ([] @ xs), rest)"
      by (rule parse_elements_join [OF ih False f])
    finally show ?thesis by simp
  qed
next
  case (JObj kvs)
  from JObj.prems(2) obtain m where n: "n = Suc m" by (cases n) auto
  show ?case
  proof (cases "kvs = []")
    case True
    then show ?thesis using n parse_value_obj_empty by simp
  next
    case False
    have ih: "\<And>kv n rest. kv \<in> set kvs \<Longrightarrow> fuel_of (snd kv) \<le> n \<Longrightarrow> num_delim rest
             \<Longrightarrow> parse_value n (stringify (snd kv) @ rest) = Inr (snd kv, rest)"
    proof -
      fix kv n rest
      assume a: "kv \<in> set kvs" "fuel_of (snd kv) \<le> n" "num_delim rest"
      have "snd kv \<in> Basic_BNFs.snds kv" by (cases kv) simp
      moreover have "wf_json (snd kv)" using JObj.prems(1) a(1) by (simp add: list_all_iff)
      ultimately show "parse_value n (stringify (snd kv) @ rest) = Inr (snd kv, rest)"
        using JObj.IH a by blast
    qed
    have f: "length kvs + sum_list (map (\<lambda>kv. fuel_of (snd kv)) kvs) \<le> m"
      using JObj.prems(2) n by simp
    have d: "distinct (map fst ([] @ kvs))" using JObj.prems(1) by simp
    have so: "sorted_wrt key_before (map fst ([] @ kvs))" using JObj.prems(1) by simp
    have "parse_value n (CHR ''{'' # join_comma (map member_text kvs) @ CHR ''}'' # rest)
        = parse_members m (join_comma (map member_text kvs) @ CHR ''}'' # rest) []"
      unfolding n by (rule parse_value_obj [OF starts_value_join_members [OF False]])
    also have "\<dots> = Inr (JObj ([] @ kvs), rest)"
      by (rule parse_members_join [OF ih False f d so])
    finally show ?thesis unfolding stringify_obj by simp
  qed
qed

lemma length_join_comma:
  "sum_list (map length ss) + length ss \<le> Suc (length (join_comma ss))"
  by (induction ss rule: join_comma.induct) simp_all

lemma fuel_of_le_length: "fuel_of v \<le> length (stringify v)"
proof (induction v)
  case (JNum i)
  have "digits k \<noteq> []" for k by (rule digits_nonempty)
  then have "1 \<le> length (digits k)" for k by (cases "digits k") simp_all
  from this [of "nat i"] show ?case by simp
next
  case (JStr s)
  show ?case by (simp add: quote_def)
next
  case (JArr xs)
  have "sum_list (map fuel_of xs) \<le> sum_list (map (\<lambda>x. length (stringify x)) xs)"
    by (rule sum_list_mono) (simp add: JArr.IH)
  moreover have "sum_list (map length (map stringify xs)) + length (map stringify xs)
      \<le> Suc (length (join_comma (map stringify xs)))"
    by (rule length_join_comma)
  ultimately show ?case by (simp add: comp_def)
next
  case (JObj kvs)
  have "sum_list (map (\<lambda>kv. fuel_of (snd kv)) kvs) \<le> sum_list (map (\<lambda>kv. length (member_text kv)) kvs)"
  proof (rule sum_list_mono)
    fix kv assume "kv \<in> set kvs"
    moreover have "snd kv \<in> Basic_BNFs.snds kv" by (cases kv) simp
    ultimately have "fuel_of (snd kv) \<le> length (stringify (snd kv))" using JObj.IH by blast
    then show "fuel_of (snd kv) \<le> length (member_text kv)" by (simp add: member_text_def)
  qed
  moreover have "sum_list (map length (map member_text kvs)) + length (map member_text kvs)
      \<le> Suc (length (join_comma (map member_text kvs)))"
    by (rule length_join_comma)
  ultimately show ?case unfolding stringify_obj by (simp add: comp_def)
qed simp_all

lemma skip_ws_spaces: "list_all is_ws ws \<Longrightarrow> skip_ws ws = []"
  by (simp add: skip_ws_def list_all_iff)

lemma num_delim_ws: "list_all is_ws ws \<Longrightarrow> num_delim ws"
  by (cases ws) (auto simp: num_delim_def is_ws_def is_digit_def)

theorem JSON_parse_stringify:
  assumes "wf_json v" "list_all is_ws ws"
  shows "JSON_parse (stringify v @ ws) = Inr v"
proof -
  have f: "fuel_of v \<le> Suc (length (stringify v @ ws))"
    using fuel_of_le_length [of v] by simp
  have "parse_value (Suc (length (stringify v @ ws))) (stringify v @ ws) = Inr (v, ws)"
    by (rule parse_value_stringify [OF assms(1) f num_delim_ws [OF assms(2)]])
  then show ?thesis
    unfolding JSON_parse_def
    by (simp add: skip_ws_starts_value [OF starts_value_stringify] skip_ws_spaces [OF assms(2)])
qed

section \<open>Encoding then decoding a part\<close>

lemma name_simps:
  "name textStreamPart = ''text''" "name functionCallStreamPart = ''function_call''"
  "name dataStreamPart = ''data''" "name errorStreamPart = ''error''"
  "name assistantMessageStreamPart = ''assistant_message''"
  "name assistantControlDataStreamPart = ''assistant_control_data''"
  "name dataMessageStreamPart = ''data_message''" "name toolCallStreamPart = ''tool_calls''"
  "name messageAnnotationsStreamPart = ''message_annotations''"
  by (simp_all add: textStreamPart_def functionCallStreamPart_def dataStreamPart_def
      errorStreamPart_def assistantMessageStreamPart_def assistantControlDataStreamPart_def
      dataMessageStreamPart_def toolCallStreamPart_def messageAnnotationsStreamPart_def)

lemma code_simps:
  "code textStreamPart = ''0''" "code functionCallStreamPart = ''1''"
  "code dataStreamPart = ''2''" "code errorStreamPart = ''3''"
  "code assistantMessageStreamPart = ''4''"
  "code assistantControlDataStreamPart = ''5''"
  "code dataMessageStreamPart = ''6''" "code toolCallStreamPart = ''7''"
  "code messageAnnotationsStreamPart = ''8''"
  by (simp_all add: textStreamPart_def functionCallStreamPart_def dataStreamPart_def
      errorStreamPart_def assistantMessageStreamPart_def assistantControlDataStreamPart_def
      dataMessageStreamPart_def toolCallStreamPart_def messageAnnotationsStreamPart_def)

lemma formatStreamPart_all:
  "list_all (\<lambda>p. formatStreamPart (name p) v = Inr (code p @ '':'' @ stringify v @ [CHR 0x0A]))
     streamParts"
  by (simp add: streamParts_def formatStreamPart_def name_simps code_simps)

lemma formatStreamPart_known:
  assumes "p \<in> set streamParts"
  shows "formatStreamPart (name p) v = Inr (code p @ '':'' @ stringify v @ [CHR 0x0A])"
  using assms formatStreamPart_all [of v] by (simp add: list_all_iff)

lemma is_ws_newline: "list_all is_ws [CHR 0x0A]"
  by (simp add: is_ws_def)

lemma parseStreamPart_all:
  assumes "JSON_parse t = Inr v"
  shows "list_all (\<lambda>p. parseStreamPart (code p @ CHR '':'' # t) = parse p v) streamParts"
  using assms
  by (simp add: streamParts_def parseStreamPart_def validCodes_def streamPartsByCode_def
      code_simps)

lemma parseStreamPart_known:
  assumes "p \<in> set streamParts" "wf_json v"
  shows "parseStreamPart (code p @ '':'' @ stringify v @ [CHR 0x0A]) = parse p v"
  using assms(1) parseStreamPart_all [OF JSON_parse_stringify [OF assms(2) is_ws_newline]]
  by (simp add: list_all_iff)

lemma obj_fieldD:
  "obj_field v k = Some x \<Longrightarrow> \<exists>kvs. v = JObj kvs \<and> map_of kvs k = Some x"
  by (cases v) (simp_all add: obj_field_def)

lemma is_strD: "is_str y \<Longrightarrow> \<exists>s. y = Some (JStr s)"
  by (auto simp: is_str_def split: option.splits json.splits)

lemma is_arrD: "is_arr y \<Longrightarrow> \<exists>xs. y = Some (JArr xs)"
  by (auto simp: is_arr_def split: option.splits json.splits)

lemma has_prop_obj: "has_prop k (Some (JObj kvs)) = (map_of kvs k \<noteq> None)"
  by (simp add: map_of_eq_None_iff)

lemma field_facts:
  assumes "obj_field v k = Some x"
  shows "\<not> is_nullish (Some v)" "typeof (Some v) = ''object''" "has_prop k (Some v)"
    "get_prop (Some v) k = Some x"
  using obj_fieldD [OF assms] by (auto simp: is_nullish_def has_prop_obj simp del: has_prop.simps)

lemma str_field_facts:
  assumes "is_str (obj_field v k)"
  shows "\<not> is_nullish (Some v)" "typeof (Some v) = ''object''" "has_prop k (Some v)"
    "typeof (get_prop (Some v) k) = ''string''"
proof -
  from is_strD [OF assms] obtain s where s: "obj_field v k = Some (JStr s)" by blast
  from field_facts [OF s] show "\<not> is_nullish (Some v)" "typeof (Some v) = ''object''"
    "has_prop k (Some v)" "typeof (get_prop (Some v) k) = ''string''"
    by simp_all
qed

lemma parse_text: "spec_shape ''text'' v \<Longrightarrow>
    parse textStreamPart v = Inr \<lparr>part_type = ''text'', part_value = spec_normalize ''text'' v\<rparr>"
  by (auto simp: spec_shape_def spec_normalize_def textStreamPart_def dest!: is_strD)

lemma parse_error: "spec_shape ''error'' v \<Longrightarrow>
    parse errorStreamPart v = Inr \<lparr>part_type = ''error'', part_value = spec_normalize ''error'' v\<rparr>"
  by (auto simp: spec_shape_def spec_normalize_def errorStreamPart_def dest!: is_strD)

lemma parse_data: "spec_shape ''data'' v \<Longrightarrow>
    parse dataStreamPart v = Inr \<lparr>part_type = ''data'', part_value = spec_normalize ''data'' v\<rparr>"
  by (auto simp: spec_shape_def spec_normalize_def dataStreamPart_def dest!: is_arrD)

lemma parse_message_annotations: "spec_shape ''message_annotations'' v \<Longrightarrow>
    parse messageAnnotationsStreamPart v =
      Inr \<lparr>part_type = ''message_annotations'', part_value = spec_normalize ''message_annotations'' v\<rparr>"
  by (auto simp: spec_shape_def spec_normalize_def messageAnnotationsStreamPart_def dest!: is_arrD)

lemma parse_function_call:
  assumes "spec_shape ''function_call'' v"
  shows "parse functionCallStreamPart v =
      Inr \<lparr>part_type = ''function_call'', part_value = spec_normalize ''function_call'' v\<rparr>"
proof -
  from assms obtain fc where fc: "obj_field v ''function_call'' = Some fc"
    and n: "is_str (obj_field fc ''name'')" and a: "is_str (obj_field fc ''arguments'')"
    by (auto simp: spec_shape_def split: option.splits)
  show ?thesis
    using field_facts [OF fc] str_field_facts [OF n] str_field_facts [OF a]
    by (simp add: functionCallStreamPart_def spec_normalize_def Let_def)
qed

lemma content_item_ok_spec: "spec_content_item item \<Longrightarrow> content_item_ok item"
proof -
  assume s: "spec_content_item item"
  then obtain t where ty: "obj_field item ''type'' = Some (JStr ''text'')"
    and t: "obj_field item ''text'' = Some t" and v: "is_str (obj_field t ''value'')"
    by (auto simp: spec_content_item_def split: option.splits)
  show ?thesis
    using field_facts [OF ty] field_facts [OF t] str_field_facts [OF v]
    by (simp add: content_item_ok_def Let_def)
qed

lemma parse_assistant_message:
  assumes "spec_shape ''assistant_message'' v"
  shows "parse assistantMessageStreamPart v =
      Inr \<lparr>part_type = ''assistant_message'', part_value = spec_normalize ''assistant_message'' v\<rparr>"
proof -
  from assms have i: "is_str (obj_field v ''id'')"
    and r: "obj_field v ''role'' = Some (JStr ''assistant'')"
    and c: "is_arr (obj_field v ''content'')"
    and items: "list_all spec_content_item (arr_items (obj_field v ''content''))"
    by (simp_all add: spec_shape_def)
  from is_arrD [OF c] obtain xs where xs: "obj_field v ''content'' = Some (JArr xs)" by blast
  have ok: "list_all content_item_ok xs"
    using items xs by (auto simp: arr_items_def list_all_iff intro: content_item_ok_spec)
  show ?thesis
    using str_field_facts [OF i] field_facts [OF r] field_facts [OF xs] ok
    by (simp add: assistantMessageStreamPart_def spec_normalize_def Let_def)
qed

lemma parse_assistant_control_data:
  assumes "spec_shape ''assistant_control_data'' v"
  shows "parse assistantControlDataStreamPart v =
      Inr \<lparr>part_type = ''assistant_control_data'',
          part_value = spec_normalize ''assistant_control_data'' v\<rparr>"
proof -
  from assms have "is_str (obj_field v ''threadId'')" "is_str (obj_field v ''messageId'')"
    by (simp_all add: spec_shape_def)
  then obtain t m where t: "obj_field v ''threadId'' = Some (JStr t)"
    and m: "obj_field v ''messageId'' = Some (JStr m)"
    by (auto dest!: is_strD)
  show ?thesis
    using field_facts [OF t] field_facts [OF m] t m
    by (simp add: assistantControlDataStreamPart_def spec_normalize_def Let_def object_literal_def)
qed

lemma parse_data_message:
  assumes "spec_shape ''data_message'' v"
  shows "parse dataMessageStreamPart v =
      Inr \<lparr>part_type = ''data_message'', part_value = spec_normalize ''data_message'' v\<rparr>"
proof -
  from assms obtain d where r: "obj_field v ''role'' = Some (JStr ''data'')"
    and d: "obj_field v ''data'' = Some d"
    by (auto simp: spec_shape_def)
  show ?thesis
    using field_facts [OF r] field_facts [OF d]
    by (simp add: dataMessageStreamPart_def spec_normalize_def Let_def)
qed

lemma tool_call_callback_falsy: "\<not> truthy (tool_call_callback tc)"
  by (simp add: tool_call_callback_def Let_def)

lemma parse_tool_calls:
  assumes "spec_shape ''tool_calls'' v"
  shows "parse toolCallStreamPart v =
      Inr \<lparr>part_type = ''tool_calls'', part_value = spec_normalize ''tool_calls'' v\<rparr>"
proof -
  from assms have "is_arr (obj_field v ''tool_calls'')" by (simp add: spec_shape_def)
  from is_arrD [OF this] obtain xs where xs: "obj_field v ''tool_calls'' = Some (JArr xs)" by blast
  show ?thesis
    using field_facts [OF xs]
    by (simp add: toolCallStreamPart_def spec_normalize_def Let_def tool_call_callback_falsy
        list_ex_iff is_nullish_def)
qed

lemma parse_of_shape:
  "list_all (\<lambda>p. spec_shape (name p) v \<longrightarrow>
      parse p v = Inr \<lparr>part_type = name p, part_value = spec_normalize (name p) v\<rparr>) streamParts"
  unfolding streamParts_def list.pred_inject name_simps
  by (intro conjI impI list.pred_inject(1) parse_text parse_function_call parse_data parse_error
      parse_assistant_message parse_assistant_control_data parse_data_message parse_tool_calls
      parse_message_annotations)

lemma nine_kinds:
  "map name streamParts
     = [''text'', ''function_call'', ''data'', ''error'', ''assistant_message'',
        ''assistant_control_data'', ''data_message'', ''tool_calls'', ''message_annotations'']"
  by (simp add: streamParts_def name_simps)

text \<open>
  Claim C1. For each of the nine part kinds \<open>text\<close>, \<open>function_call\<close>, \<open>data\<close>,
  \<open>error\<close>, \<open>assistant_message\<close>, \<open>assistant_control_data\<close>, \<open>data_message\<close>,
  \<open>tool_calls\<close> and \<open>message_annotations\<close>, and every payload \<open>v\<close> of the shape
  required for that kind, \<open>formatStreamPart k v\<close> returns a line and
  \<open>parseStreamPart\<close> of that line returns the part of type \<open>k\<close> whose value is the
  normalized payload: \<open>v\<close> itself, or for \<open>assistant_control_data\<close> the object of
  its \<open>threadId\<close> and \<open>messageId\<close>. The payloads are the values of the runtime
  described by \<open>wf_json\<close>.
\<close>

theorem format_parse_roundtrip:
  assumes "k \<in> {''text'', ''function_call'', ''data'', ''error'', ''assistant_message'',
                 ''assistant_control_data'', ''data_message'', ''tool_calls'',
                 ''message_annotations''}"
    and "spec_shape k v" "wf_json v"
  shows "\<exists>line. formatStreamPart k v = Inr line
           \<and> parseStreamPart line = Inr \<lparr>part_type = k, part_value = spec_normalize k v\<rparr>"
proof -
  from assms(1) have "k \<in> set (map name streamParts)" unfolding nine_kinds by simp
  then obtain p where p: "p \<in> set streamParts" "k = name p" by auto
  have "parse p v = Inr \<lparr>part_type = k, part_value = spec_normalize k v\<rparr>"
    using parse_of_shape [of v] p assms(2) by (simp add: list_all_iff)
  then show ?thesis
    using formatStreamPart_known [OF p(1), of v] parseStreamPart_known [OF p(1) assms(3)] p(2)
    by simp
qed

theorem format_parse_roundtrip_witness:
  "\<exists>line. formatStreamPart ''assistant_control_data''
             (JObj [(''extra'', JNum 7), (''messageId'', JStr ''m''), (''threadId'', JStr ''t'')])
           = Inr line
         \<and> parseStreamPart line
           = Inr \<lparr>part_type = ''assistant_control_data'',
                  part_value = JObj [(''threadId'', JStr ''t''), (''messageId'', JStr ''m'')]\<rparr>"
proof -
  let ?v = "JObj [(''extra'', JNum 7), (''messageId'', JStr ''m''), (''threadId'', JStr ''t'')]"
  have k: "''assistant_control_data''
      \<in> {''text'', ''function_call'', ''data'', ''error'', ''assistant_message'',
         ''assistant_control_data'', ''data_message'', ''tool_calls'', ''message_annotations''}"
    by simp
  have s: "spec_shape ''assistant_control_data'' ?v"
    by (simp add: spec_shape_def obj_field_def is_str_def)
  have w: "wf_json ?v" by code_simp
  have n: "spec_normalize ''assistant_control_data'' ?v
      = JObj [(''threadId'', JStr ''t''), (''messageId'', JStr ''m'')]"
    by (simp add: spec_normalize_def obj_field_def)
  show ?thesis
    using format_parse_roundtrip [OF k s w] unfolding n .
qed

text \<open>
  Claim C2. The claim requires \<open>parseStreamPart\<close> to reject a \<open>tool_calls\<close> line
  whose array holds an element of the wrong shape. The code accepts every array,
  whatever its elements: the callback given to \<open>some\<close> computes the shape test and
  returns nothing. In particular it accepts the line \<open>7:{"tool_calls":[1]}\<close>, whose
  only element is a number.
\<close>

theorem tool_calls_elements_unchecked:
  assumes "list_all wf_json xs"
  shows "parseStreamPart (''7:'' @ stringify (JObj [(''tool_calls'', JArr xs)]) @ [CHR 0x0A])
     = Inr \<lparr>part_type = ''tool_calls'', part_value = JObj [(''tool_calls'', JArr xs)]\<rparr>"
proof -
  have w: "wf_json (JObj [(''tool_calls'', JArr xs)])" using assms by simp
  have p: "toolCallStreamPart \<in> set streamParts" by (simp add: streamParts_def)
  have "parse toolCallStreamPart (JObj [(''tool_calls'', JArr xs)])
      = Inr \<lparr>part_type = ''tool_calls'', part_value = JObj [(''tool_calls'', JArr xs)]\<rparr>"
    by (simp add: toolCallStreamPart_def Let_def is_nullish_def list_ex_iff
        tool_call_callback_falsy)
  then show ?thesis
    using parseStreamPart_known [OF p w] by (simp add: code_simps)
qed

theorem tool_calls_elements_unchecked_witness:
  \<open>tool_call_mismatch (JNum 1)
   \<and> parseStreamPart ''7:{"tool_calls":[1]}\<newline>''
     = Inr \<lparr>part_type = ''tool_calls'', part_value = JObj [(''tool_calls'', JArr [JNum 1])]\<rparr>\<close>
proof -
  have m: "tool_call_mismatch (JNum 1)"
    by (simp add: tool_call_mismatch_def Let_def)
  have w: "list_all wf_json [JNum 1]" by simp
  have l: \<open>''7:'' @ stringify (JObj [(''tool_calls'', JArr [JNum 1])]) @ [CHR 0x0A]
      = ''7:{"tool_calls":[1]}\<newline>''\<close>
    by code_simp
  show ?thesis
    using m tool_calls_elements_unchecked [OF w] unfolding l by simp
qed

section \<open>Protocol misuse is an error\<close>

lemma close_sets_flag: "close s = (None, s') \<Longrightarrow> isClosed s'"
  by (auto simp: close_def split: if_splits)

text \<open>
  Claim C9. Once a buffer is closed (the state any successful \<open>close\<close> leaves), a
  further \<open>close\<close>, an \<open>append\<close> and an \<open>appendMessageAnnotation\<close> of any value all fail
  with the already-closed error, and each failing call returns the state it was given:
  the pending queues and the closed flag are untouched.
\<close>

theorem closed_buffer_rejects_calls:
  assumes "close s0 = (None, s) \<or> isClosed s"
  shows "close s = (Some AlreadyClosed, s)
       \<and> append_data v s = (Some AlreadyClosed, s)
       \<and> appendMessageAnnotation w s = (Some AlreadyClosed, s)"
proof -
  from assms have "isClosed s"
    using close_sets_flag by blast
  then show ?thesis
    by (simp add: close_def append_data_def appendMessageAnnotation_def)
qed

theorem closed_buffer_rejects_calls_witness:
  "close new_stream_data = (None, new_stream_data\<lparr>isClosed := True\<rparr>)
   \<and> close (new_stream_data\<lparr>isClosed := True\<rparr>)
       = (Some AlreadyClosed, new_stream_data\<lparr>isClosed := True\<rparr>)
   \<and> append_data (JStr ''x'') (new_stream_data\<lparr>isClosed := True\<rparr>)
       = (Some AlreadyClosed, new_stream_data\<lparr>isClosed := True\<rparr>)
   \<and> appendMessageAnnotation JNull (new_stream_data\<lparr>isClosed := True\<rparr>)
       = (Some AlreadyClosed, new_stream_data\<lparr>isClosed := True\<rparr>)"
proof -
  have c: "close new_stream_data = (None, new_stream_data\<lparr>isClosed := True\<rparr>)"
    by (simp add: close_def new_stream_data_def)
  show ?thesis
    using c closed_buffer_rejects_calls [OF disjI1 [OF c], of "JStr ''x''" JNull] by simp
qed

section \<open>The multiplexer flushes the queues before each unit\<close>

lemma format_data: "formatStreamPart ''data'' v = Inr (''2:'' @ stringify v @ [CHR 0x0A])"
  using formatStreamPart_known [of dataStreamPart v]
  by (simp add: streamParts_def name_simps code_simps)

lemma format_annotations:
  "formatStreamPart ''message_annotations'' v = Inr (''8:'' @ stringify v @ [CHR 0x0A])"
  using formatStreamPart_known [of messageAnnotationsStreamPart v]
  by (simp add: streamParts_def name_simps code_simps)

lemma parse_data_line:
  assumes "list_all wf_json xs"
  shows "parseStreamPart (data_line xs) = Inr \<lparr>part_type = ''data'', part_value = JArr xs\<rparr>"
proof -
  have w: "wf_json (JArr xs)" using assms by simp
  have p: "dataStreamPart \<in> set streamParts" by (simp add: streamParts_def)
  show ?thesis
    using parseStreamPart_known [OF p w]
    by (simp add: code_simps data_line_def dataStreamPart_def)
qed

lemma parse_annotations_line:
  assumes "list_all wf_json xs"
  shows "parseStreamPart (annotations_line xs)
           = Inr \<lparr>part_type = ''message_annotations'', part_value = JArr xs\<rparr>"
proof -
  have w: "wf_json (JArr xs)" using assms by simp
  have p: "messageAnnotationsStreamPart \<in> set streamParts" by (simp add: streamParts_def)
  show ?thesis
    using parseStreamPart_known [OF p w]
    by (simp add: code_simps annotations_line_def messageAnnotationsStreamPart_def)
qed

text \<open>
  Claim C5. For every incoming unit, \<open>transform\<close> enqueues: one data line carrying
  the whole pending-data queue in append order if that queue is non-empty, then one
  annotation line carrying the whole pending-annotation queue if that one is non-empty,
  then the unit itself; both queues are empty afterwards, and with both queues empty
  the unit alone is forwarded. The two lines are those of \<open>formatStreamPart\<close>, and
  they decode to a \<open>data\<close> and a \<open>message_annotations\<close> part carrying the queues. So
  two values appended before a unit arrive as one data batch, in order, before it.
\<close>

theorem transform_flushes_queues:
  "transform s chunk =
     Inr ((if data s = [] then [] else [data_line (data s)])
          @ (if messageAnnotations s = [] then [] else [annotations_line (messageAnnotations s)])
          @ [chunk],
          s\<lparr>data := [], messageAnnotations := []\<rparr>)
   \<and> formatStreamPart ''data'' (JArr (data s)) = Inr (data_line (data s))
   \<and> formatStreamPart ''message_annotations'' (JArr (messageAnnotations s))
       = Inr (annotations_line (messageAnnotations s))
   \<and> (list_all wf_json (data s) \<longrightarrow>
        parseStreamPart (data_line (data s))
          = Inr \<lparr>part_type = ''data'', part_value = JArr (data s)\<rparr>)
   \<and> (list_all wf_json (messageAnnotations s) \<longrightarrow>
        parseStreamPart (annotations_line (messageAnnotations s))
          = Inr \<lparr>part_type = ''message_annotations'', part_value = JArr (messageAnnotations s)\<rparr>)"
proof -
  have "transform s chunk =
     Inr ((if data s = [] then [] else [data_line (data s)])
          @ (if messageAnnotations s = [] then [] else [annotations_line (messageAnnotations s)])
          @ [chunk],
          s\<lparr>data := [], messageAnnotations := []\<rparr>)"
    by (simp add: transform_def format_data format_annotations data_line_def annotations_line_def)
  moreover have "formatStreamPart ''data'' (JArr (data s)) = Inr (data_line (data s))"
    by (simp add: format_data data_line_def)
  moreover have "formatStreamPart ''message_annotations'' (JArr (messageAnnotations s))
       = Inr (annotations_line (messageAnnotations s))"
    by (simp add: format_annotations annotations_line_def)
  ultimately show ?thesis
    using parse_data_line parse_annotations_line by blast
qed

theorem transform_flushes_queues_witness:
  \<open>data two_appends = [JObj [(''a'', JNum 1)], JStr ''second'']
   \<and> transform two_appends ''0:"Hi"\<newline>''
       = Inr ([''2:[{"a":1},"second"]\<newline>'', ''0:"Hi"\<newline>''], new_stream_data)
   \<and> parseStreamPart ''2:[{"a":1},"second"]\<newline>''
       = Inr \<lparr>part_type = ''data'',
              part_value = JArr [JObj [(''a'', JNum 1)], JStr ''second'']\<rparr>
   \<and> parseStreamPart ''0:"Hi"\<newline>'' = Inr \<lparr>part_type = ''text'', part_value = JStr ''Hi''\<rparr>\<close>
proof -
  have d: "data two_appends = [JObj [(''a'', JNum 1)], JStr ''second'']"
    and a: "messageAnnotations two_appends = []"
    and e: "two_appends\<lparr>data := [], messageAnnotations := []\<rparr> = new_stream_data"
    by (simp_all add: two_appends_def append_data_def new_stream_data_def)
  have w: "list_all wf_json (data two_appends)" unfolding d by simp
  have l: \<open>data_line [JObj [(''a'', JNum 1)], JStr ''second''] = ''2:[{"a":1},"second"]\<newline>''\<close>
    by code_simp
  have t: \<open>parseStreamPart ''0:"Hi"\<newline>'' = Inr \<lparr>part_type = ''text'', part_value = JStr ''Hi''\<rparr>\<close>
    by code_simp
  show ?thesis
    using transform_flushes_queues [of two_appends \<open>''0:"Hi"\<newline>''\<close>] w t
    unfolding d a e l by simp
qed

section \<open>Chunk boundaries do not matter to the decoded parts\<close>

lemma split_newline_nonempty: "split_newline s \<noteq> []"
  by (induction s) (auto split: list.splits)

lemma split_newline_append:
  "split_newline (a @ NEWLINE # b) = split_newline a @ split_newline b"
proof (induction a)
  case Nil
  then show ?case by simp
next
  case (Cons c a)
  obtain l ls where l: "split_newline a = l # ls"
    using split_newline_nonempty [of a] by (cases "split_newline a") auto
  with Cons show ?case by simp
qed

lemma map_parseStreamPart_append:
  "map_parseStreamPart (a @ b) =
     (case map_parseStreamPart a of
        Inl e \<Rightarrow> Inl e
      | Inr ps \<Rightarrow> (case map_parseStreamPart b of Inl e \<Rightarrow> Inl e | Inr qs \<Rightarrow> Inr (ps @ qs)))"
  by (induction a) (auto split: sum.splits)

lemma decode_lines_append:
  assumes "ends_with_newline t"
  shows "decode_lines (t @ u) =
     (case decode_lines t of
        Inl e \<Rightarrow> Inl e
      | Inr ps \<Rightarrow> (case decode_lines u of Inl e \<Rightarrow> Inl e | Inr qs \<Rightarrow> Inr (ps @ qs)))"
proof -
  from assms obtain t' where t: "t = t' @ [NEWLINE]"
    unfolding ends_with_newline_def by (metis append_butlast_last_id)
  have a: "split_newline (t @ u) = split_newline t' @ split_newline u"
    using split_newline_append [of t' u] by (simp add: t)
  have b: "split_newline t = split_newline t' @ [[]]"
    using split_newline_append [of t' "[]"] by (simp add: t)
  show ?thesis
    unfolding decode_lines_def a b by (simp add: map_parseStreamPart_append)
qed

lemma decode_lines_empty: "decode_lines [] = Inr []"
  by (simp add: decode_lines_def)

lemma ends_with_newline_concat:
  "ends_with_newline v \<Longrightarrow> ends_with_newline (concatChunks (chunks @ [v]))"
  by (simp add: ends_with_newline_def concatChunks_def)

lemma readDataStream_loop_reassembles:
  assumes "\<And>n. \<not> isAborted n"
    and "decode_lines (concat chunks @ concat reader) = Inr ps"
  shows "snd (readDataStream_loop isAborted n reader chunks) = None
       \<and> concat (fst (readDataStream_loop isAborted n reader chunks)) = ps"
  using assms(2)
proof (induction reader arbitrary: chunks ps n)
  case Nil
  then show ?case
    using assms(1) by (auto simp: decode_lines_empty concatChunks_def)
next
  case (Cons v reader)
  show ?case
  proof (cases "ends_with_newline v")
    case False
    have "decode_lines (concat (chunks @ [v]) @ concat reader) = Inr ps"
      using Cons.prems by simp
    from Cons.IH [OF this, of n] False show ?thesis
      by (auto split: prod.splits)
  next
    case True
    let ?t = "concatChunks (chunks @ [v])"
    have "decode_lines (?t @ concat reader) = Inr ps"
      using Cons.prems by (simp add: concatChunks_def)
    then obtain ps1 ps2 where p: "decode_lines ?t = Inr ps1"
      "decode_lines (concat [] @ concat reader) = Inr ps2" "ps = ps1 @ ps2"
      unfolding decode_lines_append [OF ends_with_newline_concat [OF True]]
      by (auto split: sum.splits)
    from Cons.IH [OF p(2), of "Suc n"] p(1,3) True assms(1) show ?thesis
      by (auto split: prod.splits)
  qed
qed

lemma readDataStream_loop_buffers:
  assumes "list_all (\<lambda>c. \<not> ends_with_newline c) pre"
  shows "readDataStream_loop isAborted n (pre @ rest) chunks
     = (replicate (length pre) [] @ fst (readDataStream_loop isAborted n rest (chunks @ pre)),
        snd (readDataStream_loop isAborted n rest (chunks @ pre)))"
  using assms
proof (induction pre arbitrary: chunks)
  case Nil
  then show ?case by simp
next
  case (Cons c pre)
  from Cons.prems have c: "\<not> ends_with_newline c"
    and p: "list_all (\<lambda>c. \<not> ends_with_newline c) pre"
    by simp_all
  show ?case
    using c Cons.IH [OF p, of "chunks @ [c]"] by (simp add: case_prod_beta)
qed

lemma readDataStream_loop_decodes:
  assumes "ends_with_newline v" "decode_lines (concat (chunks @ [v])) = Inr ps" "\<not> isAborted n"
  shows "readDataStream_loop isAborted n (v # reader) chunks
     = (ps # fst (readDataStream_loop isAborted (Suc n) reader []),
        snd (readDataStream_loop isAborted (Suc n) reader []))"
  using assms by (simp add: concatChunks_def case_prod_beta)

lemma readDataStream_loop_end:
  assumes "chunks \<noteq> []" "decode_lines (concat chunks) = Inr ps"
  shows "readDataStream_loop isAborted n [] chunks = ([ps], None)"
  using assms by (simp add: concatChunks_def)

text \<open>
  Claim C6, as the code has it. \<open>readDataStream\<close> buffers a chunk that does not end
  with the newline byte and yields nothing for it. It decodes when the chunk just read
  ends with the newline byte, and also when the source is exhausted while chunks are
  still buffered. Each time it concatenates the chunks buffered since the last
  decoding, splits the text at newlines, drops the empty fragments and parses each
  line (\<open>decode_lines\<close>), yields the parts in order, and goes on with an empty buffer.
  So, when every line of the input parses and the caller does not abort, the parts
  yielded are exactly the parts of the lines of the whole input, in order, however the
  input was cut into chunks. The state of the loop is the buffer \<open>chunks\<close> and the
  number \<open>n\<close> of batches yielded before; the result lists the batch of every read.
\<close>

theorem chunk_reassembly:
  assumes "list_all (\<lambda>c. \<not> ends_with_newline c) pre"
  shows "(ends_with_newline v \<longrightarrow> decode_lines (concat (chunks @ pre @ [v])) = Inr ps
            \<longrightarrow> \<not> isAborted n \<longrightarrow>
            readDataStream_loop isAborted n (pre @ v # reader) chunks
              = (replicate (length pre) [] @ ps # fst (readDataStream_loop isAborted (Suc n) reader []),
                 snd (readDataStream_loop isAborted (Suc n) reader [])))
       \<and> (chunks @ pre \<noteq> [] \<longrightarrow> decode_lines (concat (chunks @ pre)) = Inr ps \<longrightarrow>
            readDataStream_loop isAborted n pre chunks = (replicate (length pre) [] @ [ps], None))
       \<and> ((\<forall>n. \<not> isAborted n) \<longrightarrow> decode_lines (concat reader) = Inr qs \<longrightarrow>
            snd (readDataStream isAborted reader) = None
            \<and> concat (fst (readDataStream isAborted reader)) = qs)"
proof (intro conjI impI)
  assume "ends_with_newline v" "decode_lines (concat (chunks @ pre @ [v])) = Inr ps"
    "\<not> isAborted n"
  then show "readDataStream_loop isAborted n (pre @ v # reader) chunks
      = (replicate (length pre) [] @ ps # fst (readDataStream_loop isAborted (Suc n) reader []),
         snd (readDataStream_loop isAborted (Suc n) reader []))"
    using readDataStream_loop_buffers [OF assms, of isAborted n "v # reader" chunks]
      readDataStream_loop_decodes [of v "chunks @ pre" ps isAborted n reader]
    by simp
next
  assume "chunks @ pre \<noteq> []" "decode_lines (concat (chunks @ pre)) = Inr ps"
  then show "readDataStream_loop isAborted n pre chunks = (replicate (length pre) [] @ [ps], None)"
    using readDataStream_loop_buffers [OF assms, of isAborted n "[]" chunks]
      readDataStream_loop_end [of "chunks @ pre" ps isAborted n]
    by simp
next
  assume "\<forall>n. \<not> isAborted n" "decode_lines (concat reader) = Inr qs"
  then show "snd (readDataStream isAborted reader) = None"
    using readDataStream_loop_reassembles [of isAborted "[]" reader qs 0]
    by (simp add: readDataStream_def)
next
  assume "\<forall>n. \<not> isAborted n" "decode_lines (concat reader) = Inr qs"
  then show "concat (fst (readDataStream isAborted reader)) = qs"
    using readDataStream_loop_reassembles [of isAborted "[]" reader qs 0]
    by (simp add: readDataStream_def)
qed

theorem chunk_reassembly_witness:
  \<open>readDataStream never [''0:"hel'', ''lo"\<newline>'']
     = ([[], [\<lparr>part_type = ''text'', part_value = JStr ''hello''\<rparr>]], None)\<close>
proof -
  have p: \<open>list_all (\<lambda>c. \<not> ends_with_newline c) [''0:"hel'']\<close>
    by (simp add: ends_with_newline_def NEWLINE_def)
  have e: \<open>ends_with_newline ''lo"\<newline>''\<close>
    by (simp add: ends_with_newline_def NEWLINE_def)
  have d: \<open>decode_lines (concat ([] @ [''0:"hel''] @ [''lo"\<newline>'']))
      = Inr [\<lparr>part_type = ''text'', part_value = JStr ''hello''\<rparr>]\<close>
    by code_simp
  have n: "\<not> never 0" by (simp add: never_def)
  have \<open>readDataStream_loop never 0 ([''0:"hel''] @ ''lo"\<newline>'' # []) []
      = (replicate (length [''0:"hel'']) []
           @ [\<lparr>part_type = ''text'', part_value = JStr ''hello''\<rparr>]
             # fst (readDataStream_loop never (Suc 0) [] []),
         snd (readDataStream_loop never (Suc 0) [] []))\<close>
    using chunk_reassembly [OF p, of \<open>''lo"\<newline>''\<close> "[]"
        "[\<lparr>part_type = ''text'', part_value = JStr ''hello''\<rparr>]" never 0 "[]"] e d n
    by blast
  then show ?thesis by (simp add: readDataStream_def)
qed

text \<open>
  Claim C6 as written lets the reader decode only once the most recently read chunk
  ends with the newline byte. A single chunk without a final newline is decoded all the
  same, at the end of the input: the second read, which returns no chunk, yields the
  part.
\<close>

theorem decodes_at_end_of_input:
  \<open>\<not> ends_with_newline ''0:"a"''
   \<and> readDataStream never [''0:"a"'']
       = ([[], [\<lparr>part_type = ''text'', part_value = JStr ''a''\<rparr>]], None)\<close>
  by code_simp

section \<open>Raw-text mode appends the running prefix\<close>

lemma read_raw_result:
  assumes "\<And>j. j < length reader \<Longrightarrow> \<not> aborted (i + j)"
  shows "fst (read_raw aborted i reader sr result calls)
       = result @ concat (map (\<lambda>k. sr @ concat (take k reader)) [1..<Suc (length reader)])"
  using assms
proof (induction reader arbitrary: i sr result calls)
  case Nil
  then show ?case by simp
next
  case (Cons v reader)
  have a: "\<not> aborted i" using Cons.prems [of 0] by simp
  have b: "\<And>j. j < length reader \<Longrightarrow> \<not> aborted (Suc i + j)"
    using Cons.prems [of "Suc j" for j] by simp
  have u: "[Suc 0..<Suc (Suc (length reader))] = Suc 0 # map Suc [Suc 0..<Suc (length reader)]"
  proof -
    have "[Suc 0..<Suc (Suc (length reader))] = Suc 0 # [Suc (Suc 0)..<Suc (Suc (length reader))]"
      by (rule upt_conv_Cons) simp
    also have "[Suc (Suc 0)..<Suc (Suc (length reader))] = map Suc [Suc 0..<Suc (length reader)]"
      by (simp only: map_Suc_upt)
    finally show ?thesis .
  qed
  have e: "concat (map (\<lambda>k. sr @ concat (take k (v # reader))) [1..<Suc (length (v # reader))])
      = (sr @ v) @ concat (map (\<lambda>k. (sr @ v) @ concat (take k reader)) [1..<Suc (length reader)])"
    by (simp add: u comp_def del: upt_Suc)
  have "fst (read_raw aborted i (v # reader) sr result calls)
      = fst (read_raw aborted (Suc i) reader (sr @ v) (result @ sr @ v) (calls @ [result @ sr @ v]))"
    using a by (simp add: Let_def chunk_decoder_def)
  also have "\<dots> = (result @ sr @ v)
      @ concat (map (\<lambda>k. (sr @ v) @ concat (take k reader)) [1..<Suc (length reader)])"
    by (rule Cons.IH [OF b])
  finally show ?case unfolding e by simp
qed

lemma read_raw_last_call:
  assumes "reader \<noteq> [] \<or> (calls \<noteq> [] \<and> last calls = result)"
  shows "snd (read_raw aborted i reader sr result calls) \<noteq> []
       \<and> last (snd (read_raw aborted i reader sr result calls))
           = fst (read_raw aborted i reader sr result calls)"
  using assms
  by (induction reader arbitrary: i sr result calls) (auto simp: Let_def)

lemma read_raw_decoded:
  "read_raw aborted i reader sr result calls
     = read_raw (\<lambda>i. False) i (decoded_chunks aborted i reader) sr result calls"
  by (induction reader arbitrary: i sr result calls) (simp_all add: Let_def)

lemma decoded_chunks_all:
  "(\<And>j. j < length reader \<Longrightarrow> \<not> aborted (i + j)) \<Longrightarrow> decoded_chunks aborted i reader = reader"
proof (induction reader arbitrary: i)
  case Nil
  then show ?case by simp
next
  case (Cons v reader)
  have a: "\<not> aborted i" using Cons.prems [of 0] by simp
  have b: "\<And>j. j < length reader \<Longrightarrow> \<not> aborted (Suc i + j)"
    using Cons.prems [of "Suc j" for j] by simp
  show ?case using a Cons.IH [OF b] by simp
qed

text \<open>
  Claim C10. In raw-text mode (the response is ok, has a body, and the complex-mode
  header is absent or not \<open>true\<close>), for the chunks \<open>c1, ..., cn\<close> that are read and
  decoded, \<open>callCompletionApi\<close> returns and passes to \<open>onFinish\<close> the string
  \<open>c1 + (c1+c2) + ... + (c1+...+cn)\<close> (\<open>running_prefixes\<close>), and that same string is
  the argument of the last \<open>setCompletion\<close> call. The chunks read are all the
  chunks of the body when the request is not aborted in between.
\<close>

theorem raw_text_completion:
  assumes "res_ok res" "res_body res = Some reader" "res_complex_header res \<noteq> Some ''true''"
  shows "\<exists>calls. callCompletionApi res prompt abortController True
           = Inr \<lparr>setCompletion_calls = calls, onData_calls = [],
                  onFinish_calls =
                    [(prompt, running_prefixes (decoded_chunks (abort_check abortController) 0 reader))],
                  returned =
                    Some (running_prefixes (decoded_chunks (abort_check abortController) 0 reader))\<rparr>
         \<and> (reader \<noteq> [] \<longrightarrow> calls \<noteq> []
              \<and> last calls = running_prefixes (decoded_chunks (abort_check abortController) 0 reader))
         \<and> ((\<forall>j. j < length reader \<longrightarrow> \<not> abort_check abortController j) \<longrightarrow>
              decoded_chunks (abort_check abortController) 0 reader = reader)"
proof -
  let ?ab = "abort_check abortController"
  let ?D = "decoded_chunks ?ab 0 reader"
  have "fst (read_raw ?ab 0 reader [] [] []) = fst (read_raw (\<lambda>i. False) 0 ?D [] [] [])"
    by (simp add: read_raw_decoded [of ?ab])
  also have "\<dots> = running_prefixes ?D"
    using read_raw_result [of ?D "\<lambda>i. False" 0 "[]" "[]" "[]"]
    by (simp add: running_prefixes_def)
  finally have r: "fst (read_raw ?ab 0 reader [] [] []) = running_prefixes ?D" .
  have l: "reader \<noteq> [] \<Longrightarrow> snd (read_raw ?ab 0 reader [] [] []) \<noteq> []
      \<and> last (snd (read_raw ?ab 0 reader [] [] [])) = running_prefixes ?D"
    using read_raw_last_call [of reader "[]" "[]" ?ab 0 "[]"] r by simp
  have d: "(\<forall>j. j < length reader \<longrightarrow> \<not> ?ab j) \<longrightarrow> ?D = reader"
    using decoded_chunks_all [of reader ?ab 0] by simp
  show ?thesis
    using assms r l d
    by (cases "read_raw ?ab 0 reader [] [] []") (auto simp: callCompletionApi_def)
qed

theorem raw_text_completion_witness:
  "\<exists>calls. callCompletionApi
             \<lparr>res_ok = True, res_text = [], res_body = Some [''a'', ''b'', ''c''],
              res_complex_header = None\<rparr> ''p'' None True
           = Inr \<lparr>setCompletion_calls = calls, onData_calls = [],
                  onFinish_calls = [(''p'', ''aababc'')], returned = Some ''aababc''\<rparr>
         \<and> calls \<noteq> [] \<and> last calls = ''aababc''"
proof -
  let ?res = "\<lparr>res_ok = True, res_text = [], res_body = Some [''a'', ''b'', ''c''],
              res_complex_header = None\<rparr>"
  have r: "running_prefixes (decoded_chunks (abort_check None) 0 [''a'', ''b'', ''c'']) = ''aababc''"
    by code_simp
  have a: "res_ok ?res" and b: "res_body ?res = Some [''a'', ''b'', ''c'']"
    and c: "res_complex_header ?res \<noteq> Some ''true''"
    by simp_all
  show ?thesis
    using raw_text_completion [OF a b c, of "''p''" None]
    unfolding r by auto
qed

section \<open>What the reconstructor emits and keeps\<close>

lemma assign_stamp: "assignAnnotationsToMessage (stamp ma m) ma = stamp ma m"
  by (auto simp: assignAnnotationsToMessage_def stamp_def split: option.splits)

lemma stamp_assign: "stamp ma (assignAnnotationsToMessage m ma) = stamp ma m"
  by (auto simp: assignAnnotationsToMessage_def stamp_def split: option.splits)

lemma stamp_None: "stamp ma None = None"
  by (simp add: stamp_def split: option.splits)

lemma process_part_text:
  assumes "part_type p = ''text''"
  shows "process_part g c st p =
     (let pm1 = (case pm_text (prefixMap st) of
                   Some t \<Rightarrow> (prefixMap st)\<lparr>pm_text := Some (t\<lparr>m_content := m_content t @ string_of (part_value p)\<rparr>)\<rparr>
                 | None \<Rightarrow> (prefixMap st)\<lparr>pm_text := Some \<lparr>m_id = g (ids_generated st), m_role = ''assistant'',
                        m_content = string_of (part_value p), m_createdAt = c,
                        m_function_call = None, m_name = None, m_tool_calls = None,
                        m_annotations = None\<rparr>\<rparr>);
          ma = message_annotations st;
          pm5 = pm1\<lparr>pm_text := stamp ma (pm_text pm1),
                    pm_function_call := stamp ma (pm_function_call pm1),
                    pm_tool_calls := stamp ma (pm_tool_calls pm1)\<rparr>
      in st\<lparr>prefixMap := pm5, message_annotations := ma,
            ids_generated := (case pm_text (prefixMap st) of Some t \<Rightarrow> ids_generated st
                               | None \<Rightarrow> Suc (ids_generated st)),
            update_calls := update_calls st @ [(present [pm_text pm5], pm_data pm5)]\<rparr>)"
  using assms
  by (cases "pm_text (prefixMap st)")
     (simp_all add: process_part_def Let_def assign_stamp stamp_None present_def)

lemma process_part_function_call:
  assumes "part_type p = ''function_call''"
  shows "process_part g c st p =
     (let m = \<lparr>m_id = g (ids_generated st), m_role = ''assistant'', m_content = [],
                m_createdAt = c,
                m_function_call = get_prop (Some (part_value p)) ''function_call'',
                m_name = get_prop (get_prop (Some (part_value p)) ''function_call'') ''name'',
                m_tool_calls = None, m_annotations = None\<rparr>;
          pm2 = (prefixMap st)\<lparr>pm_function_call := Some m\<rparr>;
          ma = message_annotations st;
          pm5 = pm2\<lparr>pm_text := stamp ma (pm_text pm2),
                    pm_function_call := stamp ma (pm_function_call pm2),
                    pm_tool_calls := stamp ma (pm_tool_calls pm2)\<rparr>
      in st\<lparr>prefixMap := pm5, message_annotations := ma, ids_generated := Suc (ids_generated st),
            update_calls := update_calls st
              @ [(present [pm_function_call pm5, pm_text pm5], pm_data pm5)]\<rparr>)"
  using assms
  by (simp add: process_part_def Let_def assign_stamp stamp_None present_def)

lemma process_part_tool_calls:
  assumes "part_type p = ''tool_calls''"
  shows "process_part g c st p =
     (let m = \<lparr>m_id = g (ids_generated st), m_role = ''assistant'', m_content = [],
                m_createdAt = c, m_function_call = None, m_name = None,
                m_tool_calls = get_prop (Some (part_value p)) ''tool_calls'',
                m_annotations = None\<rparr>;
          pm3 = (prefixMap st)\<lparr>pm_tool_calls := Some m\<rparr>;
          ma = message_annotations st;
          pm5 = pm3\<lparr>pm_text := stamp ma (pm_text pm3),
                    pm_function_call := stamp ma (pm_function_call pm3),
                    pm_tool_calls := stamp ma (pm_tool_calls pm3)\<rparr>
      in st\<lparr>prefixMap := pm5, message_annotations := ma, ids_generated := Suc (ids_generated st),
            update_calls := update_calls st
              @ [(present [pm_tool_calls pm5, pm_text pm5], pm_data pm5)]\<rparr>)"
  using assms
  by (simp add: process_part_def Let_def assign_stamp stamp_None present_def)

lemma process_part_annotations:
  assumes "part_type p = ''message_annotations''"
  shows "process_part g c st p =
     (let ma = (case message_annotations st of
                  None \<Rightarrow> Some (elements (Some (part_value p)))
                | Some old \<Rightarrow> Some (old @ elements (Some (part_value p))));
          pm4 = prefixMap st;
          pm5 = pm4\<lparr>pm_text := stamp ma (pm_text pm4),
                    pm_function_call := stamp ma (pm_function_call pm4),
                    pm_tool_calls := stamp ma (pm_tool_calls pm4)\<rparr>
      in st\<lparr>prefixMap := pm5, message_annotations := ma, ids_generated := ids_generated st,
            update_calls := update_calls st
              @ [(present [pm_function_call pm5, pm_tool_calls pm5, pm_text pm5],
                  pm_data pm5)]\<rparr>)"
  using assms
  by (simp add: process_part_def Let_def assign_stamp stamp_assign stamp_None present_def)

lemma process_part_other:
  assumes "part_type p \<noteq> ''text''" "part_type p \<noteq> ''function_call''"
    "part_type p \<noteq> ''tool_calls''" "part_type p \<noteq> ''message_annotations''"
  shows "process_part g c st p =
     (let pm4 = (if part_type p = ''data''
                 then (prefixMap st)\<lparr>pm_data := pm_data (prefixMap st) @ elements (Some (part_value p))\<rparr>
                 else prefixMap st);
          ma = message_annotations st;
          pm5 = pm4\<lparr>pm_text := stamp ma (pm_text pm4),
                    pm_function_call := stamp ma (pm_function_call pm4),
                    pm_tool_calls := stamp ma (pm_tool_calls pm4)\<rparr>
      in st\<lparr>prefixMap := pm5, message_annotations := ma, ids_generated := ids_generated st,
            update_calls := update_calls st @ [(present [pm_text pm5], pm_data pm5)]\<rparr>)"
  using assms
  by (simp add: process_part_def Let_def assign_stamp stamp_None present_def)

lemma part_type_cases:
  obtains (txt_part) "part_type p = ''text''"
    | (function_call) "part_type p = ''function_call''"
    | (tool_calls) "part_type p = ''tool_calls''"
    | (annotations) "part_type p = ''message_annotations''"
    | (other) "part_type p \<noteq> ''text''" "part_type p \<noteq> ''function_call''"
        "part_type p \<noteq> ''tool_calls''" "part_type p \<noteq> ''message_annotations''"
  by blast

lemma process_part_update:
  "update_calls (process_part g c st p)
     = update_calls st
       @ [(emitted (part_type p) (prefixMap (process_part g c st p)),
           pm_data (prefixMap (process_part g c st p)))]"
proof (cases p rule: part_type_cases)
  case txt_part
  show ?thesis unfolding process_part_text [OF txt_part]
    by (simp add: emitted_def present_def Let_def txt_part)
next
  case function_call
  show ?thesis unfolding process_part_function_call [OF function_call]
    by (simp add: emitted_def present_def Let_def function_call)
next
  case tool_calls
  show ?thesis unfolding process_part_tool_calls [OF tool_calls]
    by (simp add: emitted_def present_def Let_def tool_calls)
next
  case annotations
  show ?thesis unfolding process_part_annotations [OF annotations]
    by (simp add: emitted_def present_def Let_def annotations)
next
  case other
  show ?thesis unfolding process_part_other [OF other]
    by (simp add: emitted_def present_def Let_def other)
qed

lemma process_parts_snoc:
  "process_parts g c st (ps @ [p]) = process_part g c (process_parts g c st ps) p"
  by (simp add: process_parts_def)

lemma update_calls_length:
  "length (update_calls (process_parts g c st ps)) = length (update_calls st) + length ps"
  by (induction ps rule: rev_induct)
     (simp_all add: process_parts_snoc process_part_update, simp add: process_parts_def)

lemma update_calls_nth:
  assumes "i < length ps"
  shows "update_calls (process_parts g c st ps) ! (length (update_calls st) + i)
     = (emitted (part_type (ps ! i)) (prefixMap (process_parts g c st (take (Suc i) ps))),
        pm_data (prefixMap (process_parts g c st (take (Suc i) ps))))"
  using assms
proof (induction ps rule: rev_induct)
  case Nil
  then show ?case by simp
next
  case (snoc p ps)
  let ?S = "process_parts g c st ps"
  have u: "update_calls (process_parts g c st (ps @ [p]))
      = update_calls ?S @ [(emitted (part_type p) (prefixMap (process_part g c ?S p)),
                            pm_data (prefixMap (process_part g c ?S p)))]"
    unfolding process_parts_snoc by (rule process_part_update)
  show ?case
  proof (cases "i < length ps")
    case True
    then have "length (update_calls st) + i < length (update_calls ?S)"
      by (simp add: update_calls_length)
    then show ?thesis
      unfolding u using snoc.IH [OF True] True by (simp add: nth_append)
  next
    case False
    with snoc.prems have i: "i = length ps" by simp
    then have "length (update_calls st) + i = length (update_calls ?S)"
      by (simp add: update_calls_length)
    then show ?thesis
      unfolding u using i by (simp add: nth_append process_parts_snoc)
  qed
qed

lemma stamp_annotated:
  "stamp (Some a) slot = Some m \<Longrightarrow> a \<noteq> [] \<Longrightarrow> m_annotations m = Some a"
  by (auto simp: stamp_def)

lemma stamp_annotated':
  "Some m = stamp (Some a) slot \<Longrightarrow> a \<noteq> [] \<Longrightarrow> m_annotations m = Some a"
  using stamp_annotated [of a slot m] by simp

lemma process_part_stamped:
  assumes "Some m \<in> set (slots (prefixMap (process_part g c st p)))"
    and "message_annotations (process_part g c st p) = Some a" "a \<noteq> []"
  shows "m_annotations m = Some a"
proof (cases p rule: part_type_cases)
  case txt_part
  show ?thesis using assms unfolding process_part_text [OF txt_part]
    by (auto simp: Let_def slots_def dest: stamp_annotated stamp_annotated')
next
  case function_call
  show ?thesis using assms unfolding process_part_function_call [OF function_call]
    by (auto simp: Let_def slots_def dest: stamp_annotated stamp_annotated')
next
  case tool_calls
  show ?thesis using assms unfolding process_part_tool_calls [OF tool_calls]
    by (auto simp: Let_def slots_def dest: stamp_annotated stamp_annotated')
next
  case annotations
  show ?thesis using assms unfolding process_part_annotations [OF annotations]
    by (auto simp: Let_def slots_def dest: stamp_annotated stamp_annotated')
next
  case other
  show ?thesis using assms unfolding process_part_other [OF other]
    by (auto simp: Let_def slots_def dest: stamp_annotated stamp_annotated')
qed

lemma emitted_slots: "m \<in> set (emitted t pm) \<Longrightarrow> Some m \<in> set (slots pm)"
  by (auto simp: emitted_def present_def slots_def split: if_splits option.splits)

text \<open>
  Claim C3, as the code has it. After each part the sink is called once, with the
  accumulators that part emits, in the order function_call, tool_calls, text, and a
  copy of the data channel as it then stands. The text accumulator is emitted after
  every part once it exists; the function_call and the tool_calls accumulator are
  emitted only after a part of their own kind and after a \<open>message_annotations\<close> part
  (\<open>emitted\<close>). Every emitted accumulator carries the annotation snapshot as it then
  stands, when that is non-empty.
\<close>

theorem sink_after_each_part:
  assumes "i < length parts"
  shows "update_calls (process_parts g c initial_reconstruction parts) ! i
     = (emitted (part_type (parts ! i))
          (prefixMap (process_parts g c initial_reconstruction (take (Suc i) parts))),
        pm_data (prefixMap (process_parts g c initial_reconstruction (take (Suc i) parts))))
   \<and> (\<forall>m a. m \<in> set (emitted (part_type (parts ! i))
                  (prefixMap (process_parts g c initial_reconstruction (take (Suc i) parts))))
        \<and> message_annotations (process_parts g c initial_reconstruction (take (Suc i) parts)) = Some a
        \<and> a \<noteq> []
        \<longrightarrow> m_annotations m = Some a)"
proof -
  have t: "take (Suc i) parts = take i parts @ [parts ! i]"
    using assms by (simp add: take_Suc_conv_app_nth)
  have s: "process_parts g c initial_reconstruction (take (Suc i) parts)
      = process_part g c (process_parts g c initial_reconstruction (take i parts)) (parts ! i)"
    unfolding t by (rule process_parts_snoc)
  have "update_calls initial_reconstruction = []"
    by (simp add: initial_reconstruction_def)
  then have a: "update_calls (process_parts g c initial_reconstruction parts) ! i
     = (emitted (part_type (parts ! i))
          (prefixMap (process_parts g c initial_reconstruction (take (Suc i) parts))),
        pm_data (prefixMap (process_parts g c initial_reconstruction (take (Suc i) parts))))"
    using update_calls_nth [OF assms, of g c initial_reconstruction] by simp
  show ?thesis
    using a process_part_stamped emitted_slots unfolding s by blast
qed

theorem sink_after_each_part_witness:
  "update_calls (process_parts counter_id 0 initial_reconstruction [call_f, text_hi]) ! 1
     = ([\<lparr>m_id = ''id1'', m_role = ''assistant'', m_content = ''hi'', m_createdAt = 0,
          m_function_call = None, m_name = None, m_tool_calls = None,
          m_annotations = None\<rparr>], [])"
proof -
  have l: "1 < length [call_f, text_hi]" by simp
  have e: "(emitted (part_type ([call_f, text_hi] ! 1))
          (prefixMap (process_parts counter_id 0 initial_reconstruction (take (Suc 1) [call_f, text_hi]))),
        pm_data (prefixMap (process_parts counter_id 0 initial_reconstruction (take (Suc 1) [call_f, text_hi]))))
     = ([\<lparr>m_id = ''id1'', m_role = ''assistant'', m_content = ''hi'', m_createdAt = 0,
          m_function_call = None, m_name = None, m_tool_calls = None,
          m_annotations = None\<rparr>], [])"
    by code_simp
  from sink_after_each_part [OF l, of counter_id 0]
  have "update_calls (process_parts counter_id 0 initial_reconstruction [call_f, text_hi]) ! 1
     = (emitted (part_type ([call_f, text_hi] ! 1))
          (prefixMap (process_parts counter_id 0 initial_reconstruction (take (Suc 1) [call_f, text_hi]))),
        pm_data (prefixMap (process_parts counter_id 0 initial_reconstruction (take (Suc 1) [call_f, text_hi]))))"
    by (rule conjunct1)
  then show ?thesis unfolding e .
qed

text \<open>
  Claim C3 as written has a function_call accumulator, once created, in the list
  emitted after every later part. After a function call and then a text part, the
  function_call accumulator is present in the map, yet the list emitted after the text
  part holds the text accumulator only.
\<close>

theorem sink_omits_earlier_function_call:
  "map_option m_id (pm_function_call (prefixMap
       (process_parts counter_id 0 initial_reconstruction [call_f, text_hi]))) = Some ''id0''
   \<and> map m_id (fst (update_calls
       (process_parts counter_id 0 initial_reconstruction [call_f, text_hi]) ! 1)) = [''id1'']"
  by code_simp

lemma stamp_Some: "\<exists>an. stamp ma (Some t) = Some (t\<lparr>m_annotations := an\<rparr>)"
  by (cases ma) (auto simp: stamp_def intro: exI [of _ "m_annotations t"])

lemma text_step:
  assumes "pm_text (prefixMap st) = Some t"
  shows "\<exists>t'. pm_text (prefixMap (process_part g c st p)) = Some t' \<and> same_identity t t'"
proof (cases p rule: part_type_cases)
  case txt_part
  obtain an where "stamp (message_annotations st)
      (Some (t\<lparr>m_content := m_content t @ string_of (part_value p)\<rparr>))
      = Some (t\<lparr>m_content := m_content t @ string_of (part_value p), m_annotations := an\<rparr>)"
    using stamp_Some [of "message_annotations st" "t\<lparr>m_content := m_content t @ string_of (part_value p)\<rparr>"]
    by auto
  then show ?thesis using assms unfolding process_part_text [OF txt_part]
    by (simp add: Let_def same_identity_def)
next
  case function_call
  obtain an where "stamp (message_annotations st) (Some t) = Some (t\<lparr>m_annotations := an\<rparr>)"
    using stamp_Some by blast
  then show ?thesis using assms unfolding process_part_function_call [OF function_call]
    by (simp add: Let_def same_identity_def)
next
  case tool_calls
  obtain an where "stamp (message_annotations st) (Some t) = Some (t\<lparr>m_annotations := an\<rparr>)"
    using stamp_Some by blast
  then show ?thesis using assms unfolding process_part_tool_calls [OF tool_calls]
    by (simp add: Let_def same_identity_def)
next
  case annotations
  let ?ma = "case message_annotations st of
                  None \<Rightarrow> Some (elements (Some (part_value p)))
                | Some old \<Rightarrow> Some (old @ elements (Some (part_value p)))"
  obtain an where "stamp ?ma (Some t) = Some (t\<lparr>m_annotations := an\<rparr>)"
    using stamp_Some by blast
  then show ?thesis using assms unfolding process_part_annotations [OF annotations]
    by (simp add: Let_def same_identity_def)
next
  case other
  obtain an where "stamp (message_annotations st) (Some t) = Some (t\<lparr>m_annotations := an\<rparr>)"
    using stamp_Some by blast
  then show ?thesis using assms unfolding process_part_other [OF other]
    by (simp add: Let_def same_identity_def)
qed

lemma same_identity_trans:
  "same_identity a b \<Longrightarrow> same_identity b d \<Longrightarrow> same_identity a d"
  unfolding same_identity_def
  by (metis append_eq_conv_conj append_take_drop_id append.assoc)

lemma same_identity_refl: "same_identity a a"
  by (simp add: same_identity_def)

lemma text_run:
  assumes "pm_text (prefixMap st) = Some t"
  shows "\<exists>t'. pm_text (prefixMap (process_parts g c st ps)) = Some t' \<and> same_identity t t'"
proof (induction ps rule: rev_induct)
  case Nil
  then show ?case using assms by (simp add: process_parts_def same_identity_refl)
next
  case (snoc p ps)
  then obtain t1 where t1: "pm_text (prefixMap (process_parts g c st ps)) = Some t1"
    "same_identity t t1" by blast
  from text_step [OF t1(1), of g c p] obtain t2 where
    "pm_text (prefixMap (process_part g c (process_parts g c st ps) p)) = Some t2"
    "same_identity t1 t2" by blast
  with t1(2) show ?case
    unfolding process_parts_snoc using same_identity_trans by blast
qed

lemma function_call_step:
  assumes "part_type p = ''function_call''"
  shows "\<exists>m. pm_function_call (prefixMap (process_part g c st p)) = Some m
       \<and> m_id m = g (ids_generated st) \<and> m_createdAt m = c
       \<and> ids_generated (process_part g c st p) = Suc (ids_generated st)"
proof -
  let ?m = "\<lparr>m_id = g (ids_generated st), m_role = ''assistant'', m_content = [],
                m_createdAt = c,
                m_function_call = get_prop (Some (part_value p)) ''function_call'',
                m_name = get_prop (get_prop (Some (part_value p)) ''function_call'') ''name'',
                m_tool_calls = None, m_annotations = None\<rparr>"
  obtain an where "stamp (message_annotations st) (Some ?m) = Some (?m\<lparr>m_annotations := an\<rparr>)"
    using stamp_Some by blast
  then show ?thesis unfolding process_part_function_call [OF assms]
    by (simp add: Let_def)
qed

lemma tool_calls_step:
  assumes "part_type p = ''tool_calls''"
  shows "\<exists>m. pm_tool_calls (prefixMap (process_part g c st p)) = Some m
       \<and> m_id m = g (ids_generated st) \<and> m_createdAt m = c
       \<and> ids_generated (process_part g c st p) = Suc (ids_generated st)"
proof -
  let ?m = "\<lparr>m_id = g (ids_generated st), m_role = ''assistant'', m_content = [],
                m_createdAt = c, m_function_call = None, m_name = None,
                m_tool_calls = get_prop (Some (part_value p)) ''tool_calls'',
                m_annotations = None\<rparr>"
  obtain an where "stamp (message_annotations st) (Some ?m) = Some (?m\<lparr>m_annotations := an\<rparr>)"
    using stamp_Some by blast
  then show ?thesis unfolding process_part_tool_calls [OF assms]
    by (simp add: Let_def)
qed

lemma stamp_created:
  "(case slot of None \<Rightarrow> True | Some m \<Rightarrow> m_createdAt m = c)
   \<Longrightarrow> (case stamp ma slot of None \<Rightarrow> True | Some m \<Rightarrow> m_createdAt m = c)"
  by (cases ma; cases slot) (auto simp: stamp_def)

lemma created_at_step:
  assumes "created_at c (prefixMap st)"
  shows "created_at c (prefixMap (process_part g c st p))"
proof (cases p rule: part_type_cases)
  case txt_part
  show ?thesis using assms unfolding process_part_text [OF txt_part]
    by (cases "pm_text (prefixMap st)")
       (auto simp: Let_def created_at_def slots_def intro!: stamp_created)
next
  case function_call
  show ?thesis using assms unfolding process_part_function_call [OF function_call]
    by (auto simp: Let_def created_at_def slots_def intro!: stamp_created)
next
  case tool_calls
  show ?thesis using assms unfolding process_part_tool_calls [OF tool_calls]
    by (auto simp: Let_def created_at_def slots_def intro!: stamp_created)
next
  case annotations
  show ?thesis using assms unfolding process_part_annotations [OF annotations]
    by (auto simp: Let_def created_at_def slots_def intro!: stamp_created)
next
  case other
  show ?thesis using assms unfolding process_part_other [OF other]
    by (auto simp: Let_def created_at_def slots_def intro!: stamp_created)
qed

lemma created_at_run: "created_at c (prefixMap (process_parts g c initial_reconstruction ps))"
  by (induction ps rule: rev_induct)
     (simp_all add: process_parts_snoc created_at_step,
      simp add: process_parts_def initial_reconstruction_def created_at_def slots_def)

text \<open>
  Claim C4, as the code has it. Within one pass the text accumulator, once created,
  keeps its id and its creation date through any further parts and its content only
  grows at the end; every accumulator of the pass carries the creation date taken once
  before the loop; and a function_call or tool_calls part always installs an accumulator
  whose id is the next one drawn from \<open>generateId\<close>, whether or not an accumulator of
  that kind existed before.
\<close>

theorem accumulator_identity:
  "(pm_text (prefixMap st) = Some t \<longrightarrow>
      (\<exists>t'. pm_text (prefixMap (process_parts g c st ps)) = Some t' \<and> same_identity t t'))
   \<and> created_at c (prefixMap (process_parts g c initial_reconstruction ps))
   \<and> (part_type p = ''function_call'' \<longrightarrow>
      (\<exists>m. pm_function_call (prefixMap (process_part g c st p)) = Some m
         \<and> m_id m = g (ids_generated st) \<and> m_createdAt m = c
         \<and> ids_generated (process_part g c st p) = Suc (ids_generated st)))
   \<and> (part_type p = ''tool_calls'' \<longrightarrow>
      (\<exists>m. pm_tool_calls (prefixMap (process_part g c st p)) = Some m
         \<and> m_id m = g (ids_generated st) \<and> m_createdAt m = c
         \<and> ids_generated (process_part g c st p) = Suc (ids_generated st)))"
  using text_run [of st t g c ps] created_at_run [of c g ps]
    function_call_step [of p g c st] tool_calls_step [of p g c st]
  by blast

theorem accumulator_identity_witness:
  "\<exists>t'. pm_text (prefixMap (process_parts counter_id 0
            (process_parts counter_id 0 initial_reconstruction [text_hi]) [call_f, text_hi]))
          = Some t'
        \<and> m_id t' = ''id0'' \<and> m_createdAt t' = 0 \<and> take 2 (m_content t') = ''hi''"
proof -
  let ?st = "process_parts counter_id 0 initial_reconstruction [text_hi]"
  let ?t = "\<lparr>m_id = ''id0'', m_role = ''assistant'', m_content = ''hi'', m_createdAt = 0,
          m_function_call = None, m_name = None, m_tool_calls = None,
          m_annotations = None\<rparr>"
  have h: "pm_text (prefixMap ?st) = Some ?t" by code_simp
  from accumulator_identity [of ?st ?t counter_id 0 "[call_f, text_hi]"] h
  obtain t' where "pm_text (prefixMap (process_parts counter_id 0 ?st [call_f, text_hi])) = Some t'"
    "same_identity ?t t'" by blast
  then show ?thesis by (auto simp: same_identity_def numeral_2_eq_2)
qed

text \<open>
  Claim C4 as written has a second function_call part keep the id given at the first
  creation. With a generator that counts, the first function call gets \<open>id0\<close> and the
  accumulator that replaces it gets \<open>id1\<close>.
\<close>

theorem replacement_takes_new_id:
  "map_option m_id (pm_function_call (prefixMap
       (process_parts counter_id 0 initial_reconstruction [call_f]))) = Some ''id0''
   \<and> map_option m_id (pm_function_call (prefixMap
       (process_parts counter_id 0 initial_reconstruction [call_f, call_g]))) = Some ''id1''"
  by code_simp

section \<open>The interceptor at the end of a captured payload\<close>

lemma format_text: "formatStreamPart ''text'' v = Inr (''0:'' @ stringify v @ [CHR 0x0A])"
  using formatStreamPart_known [of textStreamPart v]
  by (simp add: streamParts_def name_simps code_simps)

lemma createStreamDataTransformer_lines:
  "createStreamDataTransformer True chunks = Inr (map text_line chunks)"
  by (induction chunks) (simp_all add: createStreamDataTransformer_def format_text text_line_def)

lemma interceptor_transform_capturing:
  assumes "\<not> isFirstChunk st" "isFunctionStreamingIn st"
  shows "interceptor_transform c st u =
     Inr ([], st\<lparr>aggregatedResponse := aggregatedResponse st @ u,
                  aggregatedFinalCompletionResponse := aggregatedFinalCompletionResponse st @ u\<rparr>)"
  using assms by (simp add: interceptor_transform_def Let_def)

lemma interceptor_transforms_capturing:
  assumes "\<not> isFirstChunk st" "isFunctionStreamingIn st"
  shows "interceptor_transforms c st us =
     Inr ([], st\<lparr>aggregatedResponse := aggregatedResponse st @ concat us,
                  aggregatedFinalCompletionResponse :=
                    aggregatedFinalCompletionResponse st @ concat us\<rparr>)"
  using assms
proof (induction us arbitrary: st)
  case Nil
  then show ?case by simp
next
  case (Cons u us)
  let ?st1 = "st\<lparr>aggregatedResponse := aggregatedResponse st @ u,
                  aggregatedFinalCompletionResponse := aggregatedFinalCompletionResponse st @ u\<rparr>"
  have 1: "\<not> isFirstChunk ?st1" "isFunctionStreamingIn ?st1" using Cons.prems by simp_all
  show ?case
    using interceptor_transform_capturing [OF Cons.prems, of c u] Cons.IH [OF 1]
    by simp
qed

lemma interceptor_transforms_opening:
  assumes "startsWith u function_call_opening \<or> startsWith u tool_calls_opening"
  shows "interceptor_transforms c new_interceptor (u # us) =
     Inr ([], \<lparr>isFirstChunk = False, aggregatedResponse = concat (u # us),
               aggregatedFinalCompletionResponse = concat (u # us),
               isFunctionStreamingIn = True\<rparr>)"
proof -
  let ?st1 = "\<lparr>isFirstChunk = False, aggregatedResponse = u,
               aggregatedFinalCompletionResponse = u, isFunctionStreamingIn = True\<rparr>"
  have a: "interceptor_transform c new_interceptor u = Inr ([], ?st1)"
    using assms by (simp add: interceptor_transform_def new_interceptor_def Let_def)
  have b: "\<not> isFirstChunk ?st1" "isFunctionStreamingIn ?st1" by simp_all
  show ?thesis
    using a interceptor_transforms_capturing [OF b, of c us] by simp
qed

lemma interceptor_transform_total:
  "\<exists>out st'. interceptor_transform c st u = Inr (out, st')
     \<and> aggregatedFinalCompletionResponse st' = aggregatedFinalCompletionResponse st @ u"
  by (simp add: interceptor_transform_def Let_def format_text)

lemma interceptor_transforms_total:
  "\<exists>out st'. interceptor_transforms c st us = Inr (out, st')
     \<and> aggregatedFinalCompletionResponse st' = aggregatedFinalCompletionResponse st @ concat us"
proof (induction us arbitrary: st)
  case Nil
  then show ?case by simp
next
  case (Cons u us)
  obtain o1 st1 where 1: "interceptor_transform c st u = Inr (o1, st1)"
    "aggregatedFinalCompletionResponse st1 = aggregatedFinalCompletionResponse st @ u"
    using interceptor_transform_total by blast
  obtain o2 st2 where 2: "interceptor_transforms c st1 us = Inr (o2, st2)"
    "aggregatedFinalCompletionResponse st2 = aggregatedFinalCompletionResponse st1 @ concat us"
    using Cons.IH by blast
  show ?case using 1 2 by simp
qed

lemma flush_stream:
  assumes "capturing cb st" "JSON_parse (aggregatedResponse st) = Inr payload"
    and "function_response cb depth payload = Inr (ReturnsStream response)"
  shows "interceptor_flush continue cb depth out st = map_option (spliced out) (continue response)"
  using assms
  by (cases "continue response")
     (simp_all add: interceptor_flush_def Let_def capturing_def spliced_def)

lemma flush_cases:
  obtains (seeds) payload response where "capturing cb st"
      "JSON_parse (aggregatedResponse st) = Inr payload"
      "function_response cb depth payload = Inr (ReturnsStream response)"
    | (ends) r where "\<And>continue. interceptor_flush continue cb depth out st = Some r"
      "onFinal_calls r = (if onFinal cb \<and> aggregatedFinalCompletionResponse st \<noteq> []
                          then [aggregatedFinalCompletionResponse st] else [])"
proof (cases "capturing cb st")
  case False
  then have "\<And>continue. interceptor_flush continue cb depth out st
      = Some \<lparr>enqueued = out @ [],
          onFinal_calls = (if onFinal cb \<and> aggregatedFinalCompletionResponse st \<noteq> []
                          then [aggregatedFinalCompletionResponse st] else []),
          stream_error = None\<rparr>"
    by (auto simp: interceptor_flush_def Let_def capturing_def)
  then show ?thesis by (rule ends) simp
next
  case True
  then have c: "\<not> isFirstChunk st \<and> isFunctionStreamingIn st
      \<and> (experimental_onFunctionCall cb \<noteq> None \<or> experimental_onToolCall cb \<noteq> None)"
    by (simp add: capturing_def)
  show ?thesis
  proof (cases "JSON_parse (aggregatedResponse st)")
    case (Inl e)
    have "\<And>continue. interceptor_flush continue cb depth out st
      = Some \<lparr>enqueued = out,
          onFinal_calls = (if onFinal cb \<and> aggregatedFinalCompletionResponse st \<noteq> []
                          then [aggregatedFinalCompletionResponse st] else []),
          stream_error = Some e\<rparr>"
      using c Inl by (simp add: interceptor_flush_def Let_def)
    then show ?thesis by (rule ends) simp
  next
    case (Inr payload)
    note p = Inr
    show ?thesis
    proof (cases "function_response cb depth payload")
      case (Inl e)
      have "\<And>continue. interceptor_flush continue cb depth out st
        = Some \<lparr>enqueued = out,
            onFinal_calls = (if onFinal cb \<and> aggregatedFinalCompletionResponse st \<noteq> []
                            then [aggregatedFinalCompletionResponse st] else []),
            stream_error = Some e\<rparr>"
        using c p Inl by (simp add: interceptor_flush_def Let_def)
      then show ?thesis by (rule ends) simp
    next
      case (Inr fr)
      show ?thesis
      proof (cases "\<exists>response. fr = ReturnsStream response")
        case True
        then obtain response where "fr = ReturnsStream response" by blast
        with Inr show ?thesis using seeds [OF \<open>capturing cb st\<close> p] by simp
      next
        case False
        let ?hook = "if onFinal cb \<and> aggregatedFinalCompletionResponse st \<noteq> []
                            then [aggregatedFinalCompletionResponse st] else []"
        have "\<exists>chunks e. \<forall>continue. interceptor_flush continue cb depth out st
            = Some \<lparr>enqueued = chunks, onFinal_calls = ?hook, stream_error = e\<rparr>"
        proof (cases fr)
          case ReturnsNothing
          then show ?thesis using c p Inr
            by (cases "experimental_streamData cb")
               (auto simp: interceptor_flush_def Let_def split: sum.splits)
        next
          case (ReturnsString s)
          then show ?thesis using c p Inr
            by (cases "experimental_streamData cb"; cases "s = []")
               (auto simp: interceptor_flush_def Let_def split: sum.splits)
        next
          case (ReturnsStream response)
          with False show ?thesis by simp
        next
          case Throws
          then show ?thesis using c p Inr
            by (auto simp: interceptor_flush_def Let_def)
        qed
        then obtain chunks e where "\<And>continue. interceptor_flush continue cb depth out st
            = Some \<lparr>enqueued = chunks, onFinal_calls = ?hook, stream_error = e\<rparr>"
          by blast
        then show ?thesis by (rule ends) simp
      qed
    qed
  qed
qed

lemma transformer_cases:
  obtains (seeds) out st payload response where
      "interceptor_transforms (experimental_streamData cb) new_interceptor units = Inr (out, st)"
      "capturing cb st" "JSON_parse (aggregatedResponse st) = Inr payload"
      "function_response cb depth payload = Inr (ReturnsStream response)"
      "\<And>continue. createFunctionCallTransformer continue cb depth units
          = map_option (spliced out) (continue response)"
    | (ends) r where "\<And>continue. createFunctionCallTransformer continue cb depth units = Some r"
      "onFinal_calls r = hook_calls cb units"
proof -
  obtain out st where t: "interceptor_transforms (experimental_streamData cb) new_interceptor units = Inr (out, st)"
    and a: "aggregatedFinalCompletionResponse st = concat units"
    using interceptor_transforms_total [of "experimental_streamData cb" new_interceptor units]
    by (auto simp: new_interceptor_def)
  have c: "\<And>continue. createFunctionCallTransformer continue cb depth units
      = interceptor_flush continue cb depth out st"
    using t by (simp add: createFunctionCallTransformer_def)
  show ?thesis
  proof (cases rule: flush_cases [where cb = cb and st = st and depth = depth and out = out])
    case (seeds payload response)
    show ?thesis
      using seeds(1-3) flush_stream [OF seeds] t c by (intro that(1)) simp_all
  next
    case (ends r)
    show ?thesis
      using ends a c by (intro that(2) [of r]) (simp_all add: hook_calls_def)
  qed
qed

lemma OpenAIStream_active:
  assumes "experimental_onFunctionCall cb \<noteq> None \<or> experimental_onToolCall cb \<noteq> None"
  shows "OpenAIStream (Suc fuel) cb depth units
     = createFunctionCallTransformer (\<lambda>response. OpenAIStream fuel cb (Suc depth) response)
         cb depth units"
  using assms by simp

lemma onFinal_at_most_once:
  assumes "experimental_onFunctionCall cb \<noteq> None \<or> experimental_onToolCall cb \<noteq> None"
    and "OpenAIStream fuel cb depth units = Some r"
  shows "length (onFinal_calls r) \<le> 1"
  using assms(2)
proof (induction fuel arbitrary: depth units r)
  case 0
  then show ?case by simp
next
  case (Suc fuel)
  show ?case
  proof (cases rule: transformer_cases [where cb = cb and units = units and depth = depth])
    case (seeds out st payload response)
    from Suc.prems obtain inner where i: "OpenAIStream fuel cb (Suc depth) response = Some inner"
      "r = spliced out inner"
      unfolding OpenAIStream_active [OF assms(1)] seeds(5) by auto
    from Suc.IH [OF i(1)] i(2) show ?thesis by (simp add: spliced_def)
  next
    case (ends r')
    with Suc.prems have "r = r'"
      unfolding OpenAIStream_active [OF assms(1)] by simp
    with ends(2) show ?thesis by (simp add: hook_calls_def)
  qed
qed

lemma OpenAIStream_more_fuel:
  assumes "OpenAIStream fuel cb depth units = Some r"
  shows "OpenAIStream (Suc fuel) cb depth units = Some r"
  using assms
proof (induction fuel arbitrary: depth units r)
  case 0
  then show ?case by simp
next
  case (Suc fuel)
  show ?case
  proof (cases "experimental_onFunctionCall cb \<noteq> None \<or> experimental_onToolCall cb \<noteq> None")
    case False
    with Suc.prems show ?thesis by simp
  next
    case True
    show ?thesis
    proof (cases rule: transformer_cases [where cb = cb and units = units and depth = depth])
      case (seeds out st payload response)
      from Suc.prems obtain inner where i: "OpenAIStream fuel cb (Suc depth) response = Some inner"
        "r = spliced out inner"
        unfolding OpenAIStream_active [OF True] seeds(5) by auto
      from Suc.IH [OF i(1)] i(2) show ?thesis
        unfolding OpenAIStream_active [OF True] seeds(5) by simp
    next
      case (ends r')
      with Suc.prems show ?thesis
        unfolding OpenAIStream_active [OF True] by simp
    qed
  qed
qed

lemma OpenAIStream_terminates:
  assumes "\<And>d payload response. bound \<le> d \<Longrightarrow> function_response cb d payload \<noteq> Inr (ReturnsStream response)"
  shows "OpenAIStream (Suc (bound - depth)) cb depth units \<noteq> None"
proof (induction "bound - depth" arbitrary: depth units)
  case 0
  show ?case
  proof (cases "experimental_onFunctionCall cb \<noteq> None \<or> experimental_onToolCall cb \<noteq> None")
    case False
    then show ?thesis by (auto split: sum.splits)
  next
    case True
    show ?thesis
    proof (cases rule: transformer_cases [where cb = cb and units = units and depth = depth])
      case (seeds out st payload response)
      with assms [of depth payload response] 0 show ?thesis by simp
    next
      case (ends r')
      then show ?thesis unfolding OpenAIStream_active [OF True] by simp
    qed
  qed
next
  case (Suc n)
  show ?case
  proof (cases "experimental_onFunctionCall cb \<noteq> None \<or> experimental_onToolCall cb \<noteq> None")
    case False
    then show ?thesis by (auto split: sum.splits)
  next
    case True
    show ?thesis
    proof (cases rule: transformer_cases [where cb = cb and units = units and depth = depth])
      case (seeds out st payload response)
      have n: "n = bound - Suc depth" using Suc.hyps(2) by simp
      have b: "bound - depth = Suc (bound - Suc depth)" using Suc.hyps(2) by simp
      from Suc.hyps(1) [OF n, of response] show ?thesis
        unfolding OpenAIStream_active [OF True] seeds(5) b by simp
    next
      case (ends r')
      then show ?thesis unfolding OpenAIStream_active [OF True] by simp
    qed
  qed
qed

lemma format_structured:
  "formatStreamPart (if truthy (get_prop (Some payload) ''function_call'')
                     then ''function_call'' else ''tool_calls'') payload
     = Inr (structured_line payload)"
  using formatStreamPart_known [of functionCallStreamPart payload]
    formatStreamPart_known [of toolCallStreamPart payload]
  by (simp add: streamParts_def name_simps code_simps structured_line_def)

lemma format_function_call:
  "formatStreamPart ''function_call'' v = Inr (''1:'' @ stringify v @ [CHR 0x0A])"
  using formatStreamPart_known [of functionCallStreamPart v]
  by (simp add: streamParts_def name_simps code_simps)

lemma format_tool_calls:
  "formatStreamPart ''tool_calls'' v = Inr (''7:'' @ stringify v @ [CHR 0x0A])"
  using formatStreamPart_known [of toolCallStreamPart v]
  by (simp add: streamParts_def name_simps code_simps)

lemma interceptor_transform_forwards:
  assumes "\<not> has_opening u" "\<not> isFunctionStreamingIn st"
  shows "interceptor_transform c st u =
     Inr ([if c then text_line u else u],
          st\<lparr>aggregatedFinalCompletionResponse := aggregatedFinalCompletionResponse st @ u\<rparr>)"
  using assms
  by (simp add: interceptor_transform_def Let_def has_opening_def format_text text_line_def)

lemma interceptor_transforms_forwards:
  assumes "list_all (\<lambda>c. \<not> has_opening c) pre" "\<not> isFunctionStreamingIn st"
  shows "interceptor_transforms c st (pre @ rest) =
     (case interceptor_transforms c
             (st\<lparr>aggregatedFinalCompletionResponse :=
                   aggregatedFinalCompletionResponse st @ concat pre\<rparr>) rest of
        Inl e \<Rightarrow> Inl e
      | Inr (out, st') \<Rightarrow> Inr ((if c then map text_line pre else pre) @ out, st'))"
  using assms
proof (induction pre arbitrary: st)
  case Nil
  then show ?case by (simp split: sum.splits)
next
  case (Cons u pre)
  let ?st1 = "st\<lparr>aggregatedFinalCompletionResponse := aggregatedFinalCompletionResponse st @ u\<rparr>"
  from Cons.prems have u: "\<not> has_opening u" and p: "list_all (\<lambda>c. \<not> has_opening c) pre"
    by simp_all
  have s1: "\<not> isFunctionStreamingIn ?st1" using Cons.prems(2) by simp
  have t: "interceptor_transform c st u = Inr ([if c then text_line u else u], ?st1)"
    by (rule interceptor_transform_forwards [OF u Cons.prems(2)])
  show ?case
    using Cons.IH [OF p s1] t by (simp split: sum.splits)
qed

lemma interceptor_transforms_captures:
  assumes "has_opening u" "isFirstChunk st"
  shows "interceptor_transforms c st (u # us) =
     Inr ([], st\<lparr>isFirstChunk := False, isFunctionStreamingIn := True,
                  aggregatedResponse := aggregatedResponse st @ concat (u # us),
                  aggregatedFinalCompletionResponse :=
                    aggregatedFinalCompletionResponse st @ concat (u # us)\<rparr>)"
proof -
  let ?st1 = "st\<lparr>aggregatedFinalCompletionResponse := aggregatedFinalCompletionResponse st @ u,
                  isFunctionStreamingIn := True,
                  aggregatedResponse := aggregatedResponse st @ u,
                  isFirstChunk := False\<rparr>"
  have a: "interceptor_transform c st u = Inr ([], ?st1)"
    using assms by (simp add: interceptor_transform_def has_opening_def Let_def)
  have b: "\<not> isFirstChunk ?st1" "isFunctionStreamingIn ?st1" by simp_all
  show ?thesis
    using a interceptor_transforms_capturing [OF b, of c us] by simp
qed

lemma transforms_late_capture:
  assumes "list_all (\<lambda>c. \<not> has_opening c) pre" "has_opening u"
  shows "interceptor_transforms (experimental_streamData cb) new_interceptor (pre @ u # us) =
     Inr (forwarded cb pre,
          \<lparr>isFirstChunk = False, aggregatedResponse = concat (u # us),
           aggregatedFinalCompletionResponse = concat (pre @ u # us),
           isFunctionStreamingIn = True\<rparr>)"
proof -
  let ?st = "new_interceptor\<lparr>aggregatedFinalCompletionResponse :=
      aggregatedFinalCompletionResponse new_interceptor @ concat pre\<rparr>"
  have n: "\<not> isFunctionStreamingIn new_interceptor" by (simp add: new_interceptor_def)
  have f: "isFirstChunk ?st" by (simp add: new_interceptor_def)
  show ?thesis
    unfolding interceptor_transforms_forwards [OF assms(1) n]
      interceptor_transforms_captures [OF assms(2) f]
    by (simp add: new_interceptor_def forwarded_def)
qed

lemma transforms_no_capture:
  assumes "list_all (\<lambda>c. \<not> has_opening c) units"
  shows "interceptor_transforms (experimental_streamData cb) new_interceptor units =
     Inr (forwarded cb units,
          \<lparr>isFirstChunk = True, aggregatedResponse = [],
           aggregatedFinalCompletionResponse = concat units,
           isFunctionStreamingIn = False\<rparr>)"
proof -
  have n: "\<not> isFunctionStreamingIn new_interceptor" by (simp add: new_interceptor_def)
  show ?thesis
    using interceptor_transforms_forwards [OF assms n, of "experimental_streamData cb" "[]"]
    by (simp add: new_interceptor_def forwarded_def)
qed

lemma fallback_run:
  assumes "experimental_onFunctionCall cb \<noteq> None \<or> experimental_onToolCall cb \<noteq> None"
    and "list_all (\<lambda>c. \<not> has_opening c) pre" "has_opening u"
    and "JSON_parse (concat (u # us)) = Inr payload"
    and "function_response cb depth payload = Inr r" and "falsy r"
  shows "OpenAIStream (Suc fuel) cb depth (pre @ u # us)
     = Some \<lparr>enqueued = forwarded cb pre
                @ [if experimental_streamData cb then structured_line payload
                   else concat (u # us)],
             onFinal_calls = hook_calls cb (pre @ u # us), stream_error = None\<rparr>"
proof -
  let ?st = "\<lparr>isFirstChunk = False, aggregatedResponse = concat (u # us),
               aggregatedFinalCompletionResponse = concat (pre @ u # us),
               isFunctionStreamingIn = True\<rparr>"
  have t: "interceptor_transforms (experimental_streamData cb) new_interceptor (pre @ u # us)
      = Inr (forwarded cb pre, ?st)"
    by (rule transforms_late_capture [OF assms(2,3)])
  have f: "interceptor_flush continue cb depth (forwarded cb pre) ?st
      = Some \<lparr>enqueued = forwarded cb pre
                @ [if experimental_streamData cb then structured_line payload
                   else concat (u # us)],
             onFinal_calls = hook_calls cb (pre @ u # us), stream_error = None\<rparr>" for continue
    using assms(1,4,5,6) format_structured [of payload]
    by (cases "experimental_streamData cb")
       (simp_all add: interceptor_flush_def Let_def hook_calls_def)
  show ?thesis
    unfolding OpenAIStream_active [OF assms(1)] createFunctionCallTransformer_def t
    by (simp only: sum.case prod.case f)
qed

lemma seeding_run:
  assumes "experimental_onFunctionCall cb \<noteq> None \<or> experimental_onToolCall cb \<noteq> None"
    and "list_all (\<lambda>c. \<not> has_opening c) pre" "has_opening u"
    and "captured_response cb depth (concat (u # us)) = Inr (ReturnsStream response)"
  shows "OpenAIStream (Suc fuel) cb depth (pre @ u # us)
     = map_option (spliced (forwarded cb pre)) (OpenAIStream fuel cb (Suc depth) response)"
proof -
  let ?st = "\<lparr>isFirstChunk = False, aggregatedResponse = concat (u # us),
               aggregatedFinalCompletionResponse = concat (pre @ u # us),
               isFunctionStreamingIn = True\<rparr>"
  have t: "interceptor_transforms (experimental_streamData cb) new_interceptor (pre @ u # us)
      = Inr (forwarded cb pre, ?st)"
    by (rule transforms_late_capture [OF assms(2,3)])
  from assms(4) obtain payload where p: "JSON_parse (aggregatedResponse ?st) = Inr payload"
    "function_response cb depth payload = Inr (ReturnsStream response)"
    by (auto simp: captured_response_def split: sum.splits)
  have c: "capturing cb ?st" using assms(1) by (simp add: capturing_def)
  have f: "interceptor_flush continue cb depth (forwarded cb pre) ?st
      = map_option (spliced (forwarded cb pre)) (continue response)" for continue
    by (rule flush_stream [OF c p])
  show ?thesis
    unfolding OpenAIStream_active [OF assms(1)] createFunctionCallTransformer_def t
    by (simp only: sum.case prod.case f)
qed

lemma flush_ends:
  assumes "capturing cb st"
    and "\<forall>response. captured_response cb depth (aggregatedResponse st)
           \<noteq> Inr (ReturnsStream response)"
  shows "\<exists>tail e. \<forall>continue. interceptor_flush continue cb depth out st
           = Some \<lparr>enqueued = out @ tail,
                   onFinal_calls = (if onFinal cb \<and> aggregatedFinalCompletionResponse st \<noteq> []
                                    then [aggregatedFinalCompletionResponse st] else []),
                   stream_error = e\<rparr>"
proof -
  let ?hook = "if onFinal cb \<and> aggregatedFinalCompletionResponse st \<noteq> []
               then [aggregatedFinalCompletionResponse st] else []"
  from assms(1) have c: "\<not> isFirstChunk st \<and> isFunctionStreamingIn st
      \<and> (experimental_onFunctionCall cb \<noteq> None \<or> experimental_onToolCall cb \<noteq> None)"
    by (simp add: capturing_def)
  show ?thesis
  proof (cases "JSON_parse (aggregatedResponse st)")
    case (Inl e)
    have "\<forall>continue. interceptor_flush continue cb depth out st
        = Some \<lparr>enqueued = out @ [], onFinal_calls = ?hook, stream_error = Some e\<rparr>"
      using c Inl by (simp add: interceptor_flush_def Let_def)
    then show ?thesis by blast
  next
    case (Inr payload)
    note p = Inr
    show ?thesis
    proof (cases "function_response cb depth payload")
      case (Inl e)
      have "\<forall>continue. interceptor_flush continue cb depth out st
          = Some \<lparr>enqueued = out @ [], onFinal_calls = ?hook, stream_error = Some e\<rparr>"
        using c p Inl by (simp add: interceptor_flush_def Let_def)
      then show ?thesis by blast
    next
      case (Inr fr)
      show ?thesis
      proof (cases fr)
        case ReturnsNothing
        have "\<forall>continue. interceptor_flush continue cb depth out st
            = Some \<lparr>enqueued = out @ [if experimental_streamData cb then structured_line payload
                                      else aggregatedResponse st],
                    onFinal_calls = ?hook, stream_error = None\<rparr>"
          using c p Inr ReturnsNothing format_structured [of payload]
          by (simp add: interceptor_flush_def Let_def)
        then show ?thesis by blast
      next
        case (ReturnsString s)
        have "\<forall>continue. interceptor_flush continue cb depth out st
            = Some \<lparr>enqueued = out @ [if s = [] then
                                       (if experimental_streamData cb then structured_line payload
                                        else aggregatedResponse st)
                                     else (if experimental_streamData cb then text_line s else s)],
                    onFinal_calls = ?hook, stream_error = None\<rparr>"
          using c p Inr ReturnsString format_text [of "JStr s"]
          by (simp add: interceptor_flush_def Let_def text_line_def structured_line_def
              format_function_call format_tool_calls)
        then show ?thesis by blast
      next
        case (ReturnsStream response)
        with p Inr assms(2) show ?thesis by (simp add: captured_response_def)
      next
        case Throws
        have "\<forall>continue. interceptor_flush continue cb depth out st
            = Some \<lparr>enqueued = out @ [], onFinal_calls = ?hook, stream_error = None\<rparr>"
          using c p Inr Throws by (simp add: interceptor_flush_def Let_def)
        then show ?thesis by blast
      qed
    qed
  qed
qed

lemma ending_run:
  assumes "experimental_onFunctionCall cb \<noteq> None \<or> experimental_onToolCall cb \<noteq> None"
    and "list_all (\<lambda>c. \<not> has_opening c) pre" "has_opening u"
    and "\<forall>response. captured_response cb depth (concat (u # us)) \<noteq> Inr (ReturnsStream response)"
  shows "\<exists>tail e. OpenAIStream (Suc fuel) cb depth (pre @ u # us)
           = Some \<lparr>enqueued = forwarded cb pre @ tail,
                   onFinal_calls = hook_calls cb (pre @ u # us), stream_error = e\<rparr>"
proof -
  let ?st = "\<lparr>isFirstChunk = False, aggregatedResponse = concat (u # us),
               aggregatedFinalCompletionResponse = concat (pre @ u # us),
               isFunctionStreamingIn = True\<rparr>"
  have t: "interceptor_transforms (experimental_streamData cb) new_interceptor (pre @ u # us)
      = Inr (forwarded cb pre, ?st)"
    by (rule transforms_late_capture [OF assms(2,3)])
  have c: "capturing cb ?st" using assms(1) by (simp add: capturing_def)
  have n: "\<forall>response. captured_response cb depth (aggregatedResponse ?st)
           \<noteq> Inr (ReturnsStream response)"
    using assms(4) by simp
  from flush_ends [OF c n, of "forwarded cb pre"] obtain tail e where
    f: "\<And>continue. interceptor_flush continue cb depth (forwarded cb pre) ?st
          = Some \<lparr>enqueued = forwarded cb pre @ tail,
                  onFinal_calls = hook_calls cb (pre @ u # us), stream_error = e\<rparr>"
    by (auto simp: hook_calls_def)
  have "OpenAIStream (Suc fuel) cb depth (pre @ u # us)
      = Some \<lparr>enqueued = forwarded cb pre @ tail,
              onFinal_calls = hook_calls cb (pre @ u # us), stream_error = e\<rparr>"
    unfolding OpenAIStream_active [OF assms(1)] createFunctionCallTransformer_def t
    by (simp only: sum.case prod.case f)
  then show ?thesis by blast
qed

lemma forwarding_run:
  assumes "experimental_onFunctionCall cb \<noteq> None \<or> experimental_onToolCall cb \<noteq> None"
    and "list_all (\<lambda>c. \<not> has_opening c) units"
  shows "OpenAIStream (Suc fuel) cb depth units
     = Some \<lparr>enqueued = forwarded cb units, onFinal_calls = hook_calls cb units,
             stream_error = None\<rparr>"
proof -
  let ?st = "\<lparr>isFirstChunk = True, aggregatedResponse = [],
               aggregatedFinalCompletionResponse = concat units,
               isFunctionStreamingIn = False\<rparr>"
  have t: "interceptor_transforms (experimental_streamData cb) new_interceptor units
      = Inr (forwarded cb units, ?st)"
    by (rule transforms_no_capture [OF assms(2)])
  have f: "interceptor_flush continue cb depth (forwarded cb units) ?st
      = Some \<lparr>enqueued = forwarded cb units, onFinal_calls = hook_calls cb units,
              stream_error = None\<rparr>" for continue
    by (simp add: interceptor_flush_def Let_def hook_calls_def)
  show ?thesis
    unfolding OpenAIStream_active [OF assms(1)] createFunctionCallTransformer_def t
    by (simp only: sum.case prod.case f)
qed

lemma function_stage:
  assumes "get_prop (Some payload) ''function_call'' = Some c" "c \<noteq> JNull"
    and "get_prop (Some c) ''arguments'' = Some a" "JSON_parse (string_of a) = Inr args"
    and "f depth (object_literal [(''name'', get_prop (Some c) ''name''),
                                  (''arguments'', Some args)]) = r"
    and "r \<noteq> Throws"
  shows "call_onFunctionCall f depth payload = Inr r"
  using assms
  by (simp add: call_onFunctionCall_def is_nullish_def Let_def split: fn_response.splits)

lemma tool_stage:
  assumes "get_prop (Some payload) ''tool_calls'' = Some (JArr ts)" "tool_entries ts = Inr tools"
  shows "call_onToolCall g depth payload r
     = Inr (case g depth (JObj [(''tools'', JArr tools)]) of Throws \<Rightarrow> r | r' \<Rightarrow> r')"
  using assms by (simp add: call_onToolCall_def split: fn_response.splits)

lemma function_only_response:
  assumes "experimental_onFunctionCall cb = Some f" "experimental_onToolCall cb = None"
    and "get_prop (Some payload) ''function_call'' = Some c" "c \<noteq> JNull"
    and "get_prop (Some c) ''arguments'' = Some a" "JSON_parse (string_of a) = Inr args"
    and "f depth (object_literal [(''name'', get_prop (Some c) ''name''),
                                  (''arguments'', Some args)]) = r"
    and "r \<noteq> Throws"
  shows "function_response cb depth payload = Inr r"
  using assms(1,2) function_stage [of payload c a args f depth r] assms(3-8)
  by (simp add: function_response_def)

lemma tool_only_response:
  assumes "experimental_onFunctionCall cb = None" "experimental_onToolCall cb = Some g"
    and "get_prop (Some payload) ''tool_calls'' = Some (JArr ts)" "tool_entries ts = Inr tools"
  shows "function_response cb depth payload
     = Inr (case g depth (JObj [(''tools'', JArr tools)]) of
              Throws \<Rightarrow> ReturnsNothing | r' \<Rightarrow> r')"
  using assms(1,2) tool_stage [OF assms(3,4), of g depth ReturnsNothing]
  by (simp add: function_response_def)

lemma both_response:
  assumes "experimental_onFunctionCall cb = Some f" "experimental_onToolCall cb = Some g"
    and "get_prop (Some payload) ''function_call'' = Some c" "c \<noteq> JNull"
    and "get_prop (Some c) ''arguments'' = Some a" "JSON_parse (string_of a) = Inr args"
    and "f depth (object_literal [(''name'', get_prop (Some c) ''name''),
                                  (''arguments'', Some args)]) = r"
    and "r \<noteq> Throws"
    and "get_prop (Some payload) ''tool_calls'' = Some (JArr ts)" "tool_entries ts = Inr tools"
  shows "function_response cb depth payload
     = Inr (case g depth (JObj [(''tools'', JArr tools)]) of Throws \<Rightarrow> r | r' \<Rightarrow> r')"
  using assms(1,2) function_stage [of payload c a args f depth r] assms(3-8)
    tool_stage [OF assms(9,10), of g depth r]
  by (simp add: function_response_def)

lemma no_interceptor:
  assumes "experimental_onFunctionCall cb = None" "experimental_onToolCall cb = None"
  shows "OpenAIStream (Suc fuel) cb depth units
     = Some \<lparr>enqueued = forwarded cb units,
             onFinal_calls = (if onFinal cb then [concat units] else []),
             stream_error = None\<rparr>"
  using assms
  by (cases "experimental_streamData cb")
     (simp_all add: createStreamDataTransformer_lines forwarded_def,
      simp add: createStreamDataTransformer_def)

text \<open>
  Claim C7, as the code has it. The interceptor is installed when a function-call or a
  tool-call callback is configured. It forwards the chunks that come before the first
  chunk starting with one of the two openings (as text parts in multiplexed mode) and
  captures that chunk and all later ones. When the captured text parses as JSON and
  the callbacks' response to the payload is nothing or the empty string, the run
  enqueues, after the forwarded chunks, exactly one more chunk and does not fail: in
  multiplexed mode the structured \<open>function_call\<close> or \<open>tool_calls\<close> part of the parsed
  payload, otherwise the captured text itself. The callbacks' response is determined
  as follows. The function-call callback, when configured, needs a
  \<open>payload.function_call\<close> other than \<open>null\<close> whose \<open>arguments\<close> parse as JSON, is
  called with its name and the parsed arguments, and must not throw; its return value
  is the response. The tool-call callback, when configured, needs an array
  \<open>payload.tool_calls\<close> whose entries each hold a \<open>function\<close>, and is called with
  these entries; its return value replaces the response, and when it throws, the
  response obtained before stands (nothing, when no function-call callback is
  configured). With neither callback configured the interceptor is not installed, and
  every chunk is forwarded on its own, as a text part in multiplexed mode.
\<close>

theorem capturing_fallback:
  "(experimental_onFunctionCall cb \<noteq> None \<or> experimental_onToolCall cb \<noteq> None \<longrightarrow>
    list_all (\<lambda>c. \<not> has_opening c) pre \<longrightarrow> has_opening u \<longrightarrow>
    JSON_parse (concat (u # us)) = Inr payload \<longrightarrow>
    function_response cb depth payload = Inr r \<longrightarrow> falsy r \<longrightarrow>
      OpenAIStream (Suc fuel) cb depth (pre @ u # us)
        = Some \<lparr>enqueued = forwarded cb pre
                   @ [if experimental_streamData cb then structured_line payload
                      else concat (u # us)],
                onFinal_calls = hook_calls cb (pre @ u # us), stream_error = None\<rparr>
      \<and> formatStreamPart (if truthy (get_prop (Some payload) ''function_call'')
                           then ''function_call'' else ''tool_calls'') payload
          = Inr (structured_line payload))
   \<and> (experimental_onFunctionCall cb = Some f \<longrightarrow> experimental_onToolCall cb = None \<longrightarrow>
      get_prop (Some payload) ''function_call'' = Some c \<longrightarrow> c \<noteq> JNull \<longrightarrow>
      get_prop (Some c) ''arguments'' = Some a \<longrightarrow> JSON_parse (string_of a) = Inr args \<longrightarrow>
      f depth (object_literal [(''name'', get_prop (Some c) ''name''), (''arguments'', Some args)])
        = r1 \<longrightarrow> r1 \<noteq> Throws \<longrightarrow>
      function_response cb depth payload = Inr r1)
   \<and> (experimental_onFunctionCall cb = None \<longrightarrow> experimental_onToolCall cb = Some g \<longrightarrow>
      get_prop (Some payload) ''tool_calls'' = Some (JArr ts) \<longrightarrow> tool_entries ts = Inr tools \<longrightarrow>
      function_response cb depth payload
        = Inr (case g depth (JObj [(''tools'', JArr tools)]) of
                 Throws \<Rightarrow> ReturnsNothing | r' \<Rightarrow> r'))
   \<and> (experimental_onFunctionCall cb = Some f \<longrightarrow> experimental_onToolCall cb = Some g \<longrightarrow>
      get_prop (Some payload) ''function_call'' = Some c \<longrightarrow> c \<noteq> JNull \<longrightarrow>
      get_prop (Some c) ''arguments'' = Some a \<longrightarrow> JSON_parse (string_of a) = Inr args \<longrightarrow>
      f depth (object_literal [(''name'', get_prop (Some c) ''name''), (''arguments'', Some args)])
        = r1 \<longrightarrow> r1 \<noteq> Throws \<longrightarrow>
      get_prop (Some payload) ''tool_calls'' = Some (JArr ts) \<longrightarrow> tool_entries ts = Inr tools \<longrightarrow>
      function_response cb depth payload
        = Inr (case g depth (JObj [(''tools'', JArr tools)]) of Throws \<Rightarrow> r1 | r' \<Rightarrow> r'))
   \<and> (experimental_onFunctionCall cb = None \<longrightarrow> experimental_onToolCall cb = None \<longrightarrow>
      OpenAIStream (Suc fuel) cb depth units
        = Some \<lparr>enqueued = forwarded cb units,
                onFinal_calls = (if onFinal cb then [concat units] else []),
                stream_error = None\<rparr>)"
  using fallback_run [where cb = cb and pre = pre and u = u and us = us and payload = payload
      and depth = depth and r = r and fuel = fuel]
    format_structured [of payload]
    function_only_response [where cb = cb and f = f and payload = payload and c = c
      and a = a and args = args and depth = depth and r = r1]
    tool_only_response [where cb = cb and g = g and payload = payload and ts = ts
      and tools = tools and depth = depth]
    both_response [where cb = cb and f = f and g = g and payload = payload and c = c
      and a = a and args = args and depth = depth and r = r1 and ts = ts and tools = tools]
    no_interceptor [where cb = cb and fuel = fuel and depth = depth and units = units]
  by blast

theorem capturing_fallback_witness:
  \<open>function_call_chunks = [''{"function_call":'', ''{"name":"f","arguments":"{}"}}'']
   \<and> OpenAIStream 1 answers_nothing 0 function_call_chunks
     = Some \<lparr>enqueued = [''1:{"function_call":{"name":"f","arguments":"{}"}}\<newline>''],
             onFinal_calls = [''{"function_call":{"name":"f","arguments":"{}"}}''],
             stream_error = None\<rparr>
   \<and> OpenAIStream 1 answers_nothing 0 (''hi'' # function_call_chunks)
     = Some \<lparr>enqueued = [''0:"hi"\<newline>'',
                          ''1:{"function_call":{"name":"f","arguments":"{}"}}\<newline>''],
             onFinal_calls = [''hi{"function_call":{"name":"f","arguments":"{}"}}''],
             stream_error = None\<rparr>\<close>
proof -
  let ?pre = \<open>[''hi'']\<close>
  let ?u = \<open>''{"function_call":''\<close> and ?us = \<open>[''{"name":"f","arguments":"{}"}}'']\<close>
  have c: "function_call_chunks = ?u # ?us"
    by (simp add: function_call_chunks_def)
  have 1: "experimental_onFunctionCall answers_nothing \<noteq> None
      \<or> experimental_onToolCall answers_nothing \<noteq> None"
    by (simp add: answers_nothing_def)
  have e: "list_all (\<lambda>c. \<not> has_opening c) []" by simp
  have p: "list_all (\<lambda>c. \<not> has_opening c) ?pre" by code_simp
  have 2: "has_opening ?u" by code_simp
  have 3: "JSON_parse (concat (?u # ?us)) = Inr function_call_payload"
    by code_simp
  have 4: "function_response answers_nothing 0 function_call_payload = Inr ReturnsNothing"
    by code_simp
  have 5: "falsy ReturnsNothing" by simp
  have f: \<open>forwarded answers_nothing ?pre = [''0:"hi"\<newline>'']\<close>
    \<open>forwarded answers_nothing [] = []\<close>
    by code_simp+
  have l: \<open>structured_line function_call_payload
      = ''1:{"function_call":{"name":"f","arguments":"{}"}}\<newline>''\<close>
    by code_simp
  have h: \<open>hook_calls answers_nothing (?pre @ ?u # ?us)
      = [''hi{"function_call":{"name":"f","arguments":"{}"}}'']\<close>
    \<open>hook_calls answers_nothing ([] @ ?u # ?us)
      = [''{"function_call":{"name":"f","arguments":"{}"}}'']\<close>
    by code_simp+
  have s: "experimental_streamData answers_nothing"
    by (simp add: answers_nothing_def no_callbacks_def)
  from capturing_fallback [where cb = answers_nothing and pre = "[]" and u = ?u and us = ?us
      and payload = function_call_payload and depth = 0 and r = ReturnsNothing and fuel = 0]
    1 e 2 3 4 5
  have a: "OpenAIStream (Suc 0) answers_nothing 0 ([] @ ?u # ?us)
        = Some \<lparr>enqueued = forwarded answers_nothing []
                   @ [if experimental_streamData answers_nothing
                      then structured_line function_call_payload
                      else concat (?u # ?us)],
                onFinal_calls = hook_calls answers_nothing ([] @ ?u # ?us),
                stream_error = None\<rparr>"
    by blast
  from capturing_fallback [where cb = answers_nothing and pre = ?pre and u = ?u and us = ?us
      and payload = function_call_payload and depth = 0 and r = ReturnsNothing and fuel = 0]
    1 p 2 3 4 5
  have b: "OpenAIStream (Suc 0) answers_nothing 0 (?pre @ ?u # ?us)
        = Some \<lparr>enqueued = forwarded answers_nothing ?pre
                   @ [if experimental_streamData answers_nothing
                      then structured_line function_call_payload
                      else concat (?u # ?us)],
                onFinal_calls = hook_calls answers_nothing (?pre @ ?u # ?us),
                stream_error = None\<rparr>"
    by blast
  from a b show ?thesis
    unfolding f l h c using s by simp
qed

text \<open>
  Claim C7 as written has the two chunks of a function call forwarded as one
  structured part when no function-call callback is configured. With no callback
  configured they are forwarded as two text parts.
\<close>

theorem no_callback_forwards_text_parts:
  \<open>function_call_chunks = [''{"function_call":'', ''{"name":"f","arguments":"{}"}}'']
   \<and> experimental_onFunctionCall no_callbacks = None
   \<and> experimental_onToolCall no_callbacks = None
   \<and> OpenAIStream 1 no_callbacks 0 function_call_chunks
     = Some \<lparr>enqueued = [text_line ''{"function_call":'',
                          text_line ''{"name":"f","arguments":"{}"}}''],
             onFinal_calls = [''{"function_call":{"name":"f","arguments":"{}"}}''],
             stream_error = None\<rparr>
   \<and> parseStreamPart (text_line ''{"function_call":'')
     = Inr \<lparr>part_type = ''text'', part_value = JStr ''{"function_call":''\<rparr>
   \<and> parseStreamPart (text_line ''{"name":"f","arguments":"{}"}}'')
     = Inr \<lparr>part_type = ''text'', part_value = JStr ''{"name":"f","arguments":"{}"}}''\<rparr>\<close>
  by code_simp

text \<open>
  Claim C8, as the code has it. With the interceptor installed, an invocation forwards
  the chunks that come before the first chunk starting with one of the two openings
  and captures the rest. When the callbacks answer the captured text with a new
  response, the invocation seeds a continuation: it calls no hook itself, and its run
  is the continuation's run behind the chunks it forwarded, with the continuation's
  hook calls. In every other case (nothing is captured, the captured text does not
  parse, the callbacks fail or answer with nothing or a string) the invocation ends
  the run, its output starts with the chunks it forwarded, and it calls the hook with
  the concatenation of the chunks that entered it, provided that is non-empty (texts
  outside the JSON fragment of the codec excepted). So along a chain of continuations
  the hook is called at most once, by the innermost invocation, with the chunks that
  entered that invocation. A run does not depend on the bound once the bound
  suffices, and it suffices when the callbacks stop seeding continuations at some
  depth.
\<close>

theorem final_hook_along_continuations:
  assumes "experimental_onFunctionCall cb \<noteq> None \<or> experimental_onToolCall cb \<noteq> None"
  shows "(list_all (\<lambda>c. \<not> has_opening c) pre \<longrightarrow> has_opening u \<longrightarrow>
          captured_response cb depth (concat (u # us)) = Inr (ReturnsStream response) \<longrightarrow>
            OpenAIStream (Suc fuel) cb depth (pre @ u # us)
              = map_option (spliced (forwarded cb pre)) (OpenAIStream fuel cb (Suc depth) response))
       \<and> (list_all (\<lambda>c. \<not> has_opening c) pre \<longrightarrow> has_opening u \<longrightarrow>
          captured_response cb depth (concat (u # us)) \<noteq> Inl Unmodelled \<longrightarrow>
          (\<forall>response. captured_response cb depth (concat (u # us))
                        \<noteq> Inr (ReturnsStream response)) \<longrightarrow>
            (\<exists>tail e. OpenAIStream (Suc fuel) cb depth (pre @ u # us)
               = Some \<lparr>enqueued = forwarded cb pre @ tail,
                       onFinal_calls = hook_calls cb (pre @ u # us), stream_error = e\<rparr>))
       \<and> (list_all (\<lambda>c. \<not> has_opening c) units \<longrightarrow>
            OpenAIStream (Suc fuel) cb depth units
              = Some \<lparr>enqueued = forwarded cb units, onFinal_calls = hook_calls cb units,
                      stream_error = None\<rparr>)
       \<and> (\<forall>r. OpenAIStream fuel cb depth units = Some r \<longrightarrow>
            length (onFinal_calls r) \<le> 1 \<and> OpenAIStream (Suc fuel) cb depth units = Some r)
       \<and> ((\<forall>d payload response. bound \<le> d \<longrightarrow>
              function_response cb d payload \<noteq> Inr (ReturnsStream response)) \<longrightarrow>
            OpenAIStream (Suc (bound - depth)) cb depth units \<noteq> None)"
  using seeding_run [OF assms, of pre u depth us response fuel]
    ending_run [OF assms, of pre u depth us fuel]
    forwarding_run [OF assms, of units fuel depth]
    onFinal_at_most_once [OF assms] OpenAIStream_more_fuel OpenAIStream_terminates
  by blast

theorem final_hook_along_continuations_witness:
  \<open>late_call_chunks = [''hi'', ''{"function_call":'', ''{"name":"f","arguments":"{}"}}'']
   \<and> OpenAIStream 2 seeds_text 0 late_call_chunks
     = Some \<lparr>enqueued = [''0:"hi"\<newline>'', ''0:"a"\<newline>'', ''0:"b"\<newline>''],
             onFinal_calls = [''ab''], stream_error = None\<rparr>\<close>
proof -
  let ?pre = \<open>[''hi'']\<close>
  let ?u = \<open>''{"function_call":''\<close> and ?us = \<open>[''{"name":"f","arguments":"{}"}}'']\<close>
  have c: "late_call_chunks = ?pre @ ?u # ?us"
    by (simp add: late_call_chunks_def function_call_chunks_def)
  have a: "experimental_onFunctionCall seeds_text \<noteq> None \<or> experimental_onToolCall seeds_text \<noteq> None"
    by (simp add: seeds_text_def)
  have p: "list_all (\<lambda>c. \<not> has_opening c) ?pre" by code_simp
  have o: "has_opening ?u" by code_simp
  have r: "captured_response seeds_text 0 (concat (?u # ?us)) = Inr (ReturnsStream [''a'', ''b''])"
    by code_simp
  have i: \<open>map_option (spliced (forwarded seeds_text ?pre))
             (OpenAIStream (Suc 0) seeds_text (Suc 0) [''a'', ''b''])
      = Some \<lparr>enqueued = [''0:"hi"\<newline>'', ''0:"a"\<newline>'', ''0:"b"\<newline>''],
              onFinal_calls = [''ab''], stream_error = None\<rparr>\<close>
    by code_simp
  have "OpenAIStream (Suc (Suc 0)) seeds_text 0 (?pre @ ?u # ?us)
      = map_option (spliced (forwarded seeds_text ?pre))
          (OpenAIStream (Suc 0) seeds_text (Suc 0) [''a'', ''b''])"
    using final_hook_along_continuations [OF a, of ?pre ?u 0 ?us "[''a'', ''b'']" "Suc 0"] p o r
    by blast
  then show ?thesis
    unfolding i c by (simp add: numeral_2_eq_2)
qed

text \<open>
  Claim C8 as written has the hook called exactly once, with every chunk that passed
  at any depth. A continuation that yields no text completes without any hook call; and
  when the continuation is itself a function call answered by a string, the hook
  receives the continuation's captured text only, neither the outer invocation's chunks
  nor the forwarded answer.
\<close>

theorem final_hook_not_once_nor_all_chunks:
  \<open>OpenAIStream 2 seeds_empty 0 function_call_chunks
     = Some \<lparr>enqueued = [], onFinal_calls = [], stream_error = None\<rparr>
   \<and> OpenAIStream 2 seeds_call_then_string 0 function_call_chunks
     = Some \<lparr>enqueued = [text_line ''done''],
             onFinal_calls = [''{"function_call":{"name":"g","arguments":"{}"}}''],
             stream_error = None\<rparr>\<close>
  by code_simp

end
